theory Spec2Isabelle
  imports Complex_Main
begin

unbundle bit_operations_syntax

section \<open>JavaScript strings\<close>

text \<open>
  A JavaScript string is a sequence of UTF-16 code units, here natural numbers below
  \<open>0x10000\<close>. A byte of a network chunk is a \<open>char\<close>. \<open>js\<close> writes an ASCII literal
  of the source as a JavaScript string.
\<close>

type_synonym jsstring = "nat list"
type_synonym byte = char

definition js :: "string \<Rightarrow> jsstring" where
  "js s = map of_char s"

definition newline :: nat where
  "newline = 0x0A"

text \<open>
  The characters removed by \<^verbatim>\<open>String.prototype.trim\<close> and matched by \<^verbatim>\<open>\s\<close>:
  WhiteSpace (TAB, VT, FF, SP, NBSP, ZWNBSP and the category Zs) and LineTerminator
  (LF, CR, LS, PS).
\<close>

definition isWhiteSpace :: "nat \<Rightarrow> bool" where
  "isWhiteSpace c \<longleftrightarrow>
     c = 0x09 \<or> c = 0x0A \<or> c = 0x0B \<or> c = 0x0C \<or> c = 0x0D \<or> c = 0x20 \<or> c = 0xA0 \<or>
     c = 0x1680 \<or> (0x2000 \<le> c \<and> c \<le> 0x200A) \<or> c = 0x2028 \<or> c = 0x2029 \<or>
     c = 0x202F \<or> c = 0x205F \<or> c = 0x3000 \<or> c = 0xFEFF"

definition trim :: "jsstring \<Rightarrow> jsstring" where
  "trim s = rev (dropWhile isWhiteSpace (rev (dropWhile isWhiteSpace s)))"

definition startsWith :: "jsstring \<Rightarrow> jsstring \<Rightarrow> bool" where
  "startsWith s p \<longleftrightarrow> take (length p) s = p"

text \<open>\<^verbatim>\<open>s.indexOf(c)\<close> for a one-character search string: the first index, or \<open>-1\<close>.\<close>

definition indexOf :: "jsstring \<Rightarrow> nat \<Rightarrow> int" where
  "indexOf s c = (if c \<in> set s then int (length (takeWhile (\<lambda>x. x \<noteq> c) s)) else - 1)"

text \<open>\<^verbatim>\<open>s.slice(a, b)\<close> and \<^verbatim>\<open>s.slice(a)\<close> for non-negative arguments.\<close>

definition slice :: "jsstring \<Rightarrow> nat \<Rightarrow> nat \<Rightarrow> jsstring" where
  "slice s a b = take (b - a) (drop a s)"

definition slice_from :: "jsstring \<Rightarrow> nat \<Rightarrow> jsstring" where
  "slice_from s a = drop a s"

text \<open>The decimal digits of a number, as the template literal \<^verbatim>\<open>`${res.status}`\<close> prints them.\<close>

fun toString_nat :: "nat \<Rightarrow> jsstring" where
  "toString_nat n =
     (if n < 10 then [48 + n] else toString_nat (n div 10) @ [48 + n mod 10])"

section \<open>JSON values\<close>

text \<open>
  The values \<^verbatim>\<open>JSON.parse\<close> returns. A number is kept as the exact value of its
  literal; an object as its properties in insertion order, without duplicate keys.
\<close>

datatype json =
    JNull
  | JBool bool
  | JNum rat
  | JStr jsstring
  | JArr "json list"
  | JObj "(jsstring \<times> json) list"

text \<open>
  ToBoolean. The literal of a number denotes the double nearest to it, which is zero
  exactly when the magnitude is at most \<open>2\<^sup>-\<^sup>1\<^sup>0\<^sup>7\<^sup>5\<close>, half the least positive double.
\<close>

fun truthy :: "json \<Rightarrow> bool" where
  "truthy JNull = False"
| "truthy (JBool b) = b"
| "truthy (JNum q) = (1 / 2 ^ 1075 < \<bar>q\<bar>)"
| "truthy (JStr s) = (s \<noteq> [])"
| "truthy (JArr xs) = True"
| "truthy (JObj kvs) = True"

text \<open>
  \<^verbatim>\<open>parsed?.content\<close>: \<open>None\<close> is \<^verbatim>\<open>undefined\<close>. Only an object can own a property
  \<^verbatim>\<open>content\<close>; \<^verbatim>\<open>null\<close> short-circuits, and the prototypes of strings, numbers, booleans
  and arrays have no such property.
\<close>

fun optional_content :: "json \<Rightarrow> json option" where
  "optional_content (JObj kvs) = map_of kvs (js ''content'')"
| "optional_content v = None"

section \<open>JSON.parse\<close>

text \<open>
  The platform's \<^verbatim>\<open>JSON.parse\<close> on a string, after the JSON grammar of ECMA-404:
  \<open>None\<close> is the SyntaxError it throws.
\<close>

definition isJsonSpace :: "nat \<Rightarrow> bool" where
  "isJsonSpace c \<longleftrightarrow> c = 0x09 \<or> c = 0x0A \<or> c = 0x0D \<or> c = 0x20"

definition skip_ws :: "jsstring \<Rightarrow> jsstring" where
  "skip_ws s = dropWhile isJsonSpace s"

definition isDigit :: "nat \<Rightarrow> bool" where
  "isDigit c \<longleftrightarrow> 48 \<le> c \<and> c \<le> 57"

definition hexval :: "nat \<Rightarrow> nat option" where
  "hexval c =
     (if 48 \<le> c \<and> c \<le> 57 then Some (c - 48)
      else if 65 \<le> c \<and> c \<le> 70 then Some (c - 55)
      else if 97 \<le> c \<and> c \<le> 102 then Some (c - 87)
      else None)"

definition unescape :: "nat \<Rightarrow> nat option" where
  "unescape e =
     (if e = 0x22 then Some 0x22
      else if e = 0x5C then Some 0x5C
      else if e = 0x2F then Some 0x2F
      else if e = 0x62 then Some 0x08
      else if e = 0x66 then Some 0x0C
      else if e = 0x6E then Some 0x0A
      else if e = 0x72 then Some 0x0D
      else if e = 0x74 then Some 0x09
      else None)"

definition hex4 :: "jsstring \<Rightarrow> nat option" where
  "hex4 hs =
     (case map hexval hs of
        [Some a, Some b, Some c, Some d] \<Rightarrow> Some (((a * 16 + b) * 16 + c) * 16 + d)
      | _ \<Rightarrow> None)"

text \<open>
  The characters of a string literal after its opening quote, up to the closing quote:
  the string denoted, and the text after the closing quote.
\<close>

fun parse_chars :: "jsstring \<Rightarrow> (jsstring \<times> jsstring) option" where
  "parse_chars [] = None"
| "parse_chars (c # cs) =
     (if c = 0x22 then Some ([], cs)
      else if c = 0x5C then
        (case cs of
           [] \<Rightarrow> None
         | e # es \<Rightarrow>
             if e = 0x75 then
               (case hex4 (take 4 es) of
                  None \<Rightarrow> None
                | Some u \<Rightarrow> map_option (\<lambda>(t, r). (u # t, r)) (parse_chars (drop 4 es)))
             else
               (case unescape e of
                  None \<Rightarrow> None
                | Some u \<Rightarrow> map_option (\<lambda>(t, r). (u # t, r)) (parse_chars es)))
      else if c < 0x20 then None
      else map_option (\<lambda>(t, r). (c # t, r)) (parse_chars cs))"

definition digits_value :: "jsstring \<Rightarrow> nat" where
  "digits_value ds = foldl (\<lambda>a d. 10 * a + (d - 48)) 0 ds"

text \<open>
  A number literal: an optional minus, an integer part without a leading zero, an
  optional fraction and an optional exponent.
\<close>

definition parse_exponent :: "jsstring \<Rightarrow> (int \<times> jsstring) option" where
  "parse_exponent s =
     (case s of
        [] \<Rightarrow> Some (0, s)
      | c # cs \<Rightarrow>
          if c = 0x65 \<or> c = 0x45 then
            (let neg = (cs \<noteq> [] \<and> hd cs = 0x2D);
                 ds0 = (if cs \<noteq> [] \<and> (hd cs = 0x2D \<or> hd cs = 0x2B) then tl cs else cs);
                 ds = takeWhile isDigit ds0
             in if ds = [] then None
                else Some ((if neg then - int (digits_value ds) else int (digits_value ds)),
                           dropWhile isDigit ds0))
          else Some (0, s))"

definition parse_fraction :: "jsstring \<Rightarrow> (rat \<times> jsstring) option" where
  "parse_fraction s =
     (case s of
        [] \<Rightarrow> Some (0, s)
      | c # cs \<Rightarrow>
          if c = 0x2E then
            (let ds = takeWhile isDigit cs
             in if ds = [] then None
                else Some (of_nat (digits_value ds) / 10 ^ length ds, dropWhile isDigit cs))
          else Some (0, s))"

definition parse_integer :: "jsstring \<Rightarrow> (rat \<times> jsstring) option" where
  "parse_integer s =
     (case s of
        [] \<Rightarrow> None
      | c # cs \<Rightarrow>
          if c = 0x30 then Some (0, cs)
          else if isDigit c then
            Some (of_nat (digits_value (takeWhile isDigit s)), dropWhile isDigit s)
          else None)"

definition parse_number :: "jsstring \<Rightarrow> (rat \<times> jsstring) option" where
  "parse_number s =
     (let neg = (s \<noteq> [] \<and> hd s = 0x2D);
          s1 = (if neg then tl s else s)
      in case parse_integer s1 of
           None \<Rightarrow> None
         | Some (i, s2) \<Rightarrow>
             (case parse_fraction s2 of
                None \<Rightarrow> None
              | Some (f, s3) \<Rightarrow>
                  (case parse_exponent s3 of
                     None \<Rightarrow> None
                   | Some (e, s4) \<Rightarrow>
                       Some ((if neg then - 1 else 1) * (i + f) *
                               (if 0 \<le> e then 10 ^ nat e else 1 / 10 ^ nat (- e)),
                             s4))))"

text \<open>Defining a property: a key already present keeps its place and takes the new value.\<close>

fun set_prop :: "(jsstring \<times> json) list \<Rightarrow> jsstring \<Rightarrow> json \<Rightarrow> (jsstring \<times> json) list" where
  "set_prop [] k v = [(k, v)]"
| "set_prop (p # ps) k v = (if fst p = k then (k, v) # ps else p # set_prop ps k v)"

text \<open>
  A value, the elements of an array after its opening bracket, and the members of an
  object after its opening brace. Every call consumes one unit of \<open>fuel\<close>; a fuel of
  twice the length of the text and one more is enough, and any fuel from there on gives
  the same result, as \<open>fuel_enough_all\<close> and \<open>JSON_parse_fuel\<close> show below.
\<close>

fun parse_value :: "nat \<Rightarrow> jsstring \<Rightarrow> (json \<times> jsstring) option"
  and parse_elements :: "nat \<Rightarrow> jsstring \<Rightarrow> json list \<Rightarrow> (json list \<times> jsstring) option"
  and parse_members ::
    "nat \<Rightarrow> jsstring \<Rightarrow> (jsstring \<times> json) list \<Rightarrow> ((jsstring \<times> json) list \<times> jsstring) option"
  where
  "parse_value 0 s = None"
| "parse_value (Suc fuel) s =
     (case skip_ws s of
        [] \<Rightarrow> None
      | c # cs \<Rightarrow>
          if c = 0x7B then
            (case skip_ws cs of
               [] \<Rightarrow> None
             | d # ds \<Rightarrow>
                 if d = 0x7D then Some (JObj [], ds)
                 else map_option (\<lambda>(kvs, r). (JObj kvs, r)) (parse_members fuel (d # ds) []))
          else if c = 0x5B then
            (case skip_ws cs of
               [] \<Rightarrow> None
             | d # ds \<Rightarrow>
                 if d = 0x5D then Some (JArr [], ds)
                 else map_option (\<lambda>(vs, r). (JArr vs, r)) (parse_elements fuel (d # ds) []))
          else if c = 0x22 then
            map_option (\<lambda>(t, r). (JStr t, r)) (parse_chars cs)
          else if c = 0x2D \<or> isDigit c then
            map_option (\<lambda>(q, r). (JNum q, r)) (parse_number (c # cs))
          else if startsWith (c # cs) (js ''true'') then Some (JBool True, drop 4 (c # cs))
          else if startsWith (c # cs) (js ''false'') then Some (JBool False, drop 5 (c # cs))
          else if startsWith (c # cs) (js ''null'') then Some (JNull, drop 4 (c # cs))
          else None)"
| "parse_elements 0 s acc = None"
| "parse_elements (Suc fuel) s acc =
     (case parse_value fuel s of
        None \<Rightarrow> None
      | Some (v, r) \<Rightarrow>
          (case skip_ws r of
             [] \<Rightarrow> None
           | c # cs \<Rightarrow>
               if c = 0x2C then parse_elements fuel cs (acc @ [v])
               else if c = 0x5D then Some (acc @ [v], cs)
               else None))"
| "parse_members 0 s acc = None"
| "parse_members (Suc fuel) s acc =
     (case skip_ws s of
        [] \<Rightarrow> None
      | c # cs \<Rightarrow>
          if c \<noteq> 0x22 then None
          else
            (case parse_chars cs of
               None \<Rightarrow> None
             | Some (k, r) \<Rightarrow>
                 (case skip_ws r of
                    [] \<Rightarrow> None
                  | d # ds \<Rightarrow>
                      if d \<noteq> 0x3A then None
                      else
                        (case parse_value fuel ds of
                           None \<Rightarrow> None
                         | Some (v, r') \<Rightarrow>
                             (case skip_ws r' of
                                [] \<Rightarrow> None
                              | e # es \<Rightarrow>
                                  if e = 0x2C then parse_members fuel es (set_prop acc k v)
                                  else if e = 0x7D then Some (set_prop acc k v, es)
                                  else None)))))"

definition JSON_parse :: "jsstring \<Rightarrow> json option" where
  "JSON_parse s =
     (case parse_value (2 * length s + 2) s of
        None \<Rightarrow> None
      | Some (v, r) \<Rightarrow> if skip_ws r = [] then Some v else None)"

section \<open>TextDecoder\<close>

text \<open>
  \<^verbatim>\<open>new TextDecoder()\<close> with \<^verbatim>\<open>decode(value, { stream: true })\<close>: the UTF-8 decoder
  of the Encoding standard in replacement mode. The state is kept between chunks; the
  first code point of the stream is dropped when it is the byte order mark.
\<close>

record decoder =
  code_point :: nat
  bytes_seen :: nat
  bytes_needed :: nat
  lower_boundary :: nat
  upper_boundary :: nat
  bom_seen :: bool

definition new_TextDecoder :: decoder where
  "new_TextDecoder =
     \<lparr>code_point = 0, bytes_seen = 0, bytes_needed = 0,
      lower_boundary = 0x80, upper_boundary = 0xBF, bom_seen = False\<rparr>"

definition reset_decoder :: "decoder \<Rightarrow> decoder" where
  "reset_decoder d =
     d\<lparr>code_point := 0, bytes_seen := 0, bytes_needed := 0,
       lower_boundary := 0x80, upper_boundary := 0xBF\<rparr>"

text \<open>A byte read while no sequence is open: the decoder after it, and the code points emitted.\<close>

definition lead_byte :: "decoder \<Rightarrow> nat \<Rightarrow> decoder \<times> nat list" where
  "lead_byte d b =
     (if b \<le> 0x7F then (d, [b])
      else if 0xC2 \<le> b \<and> b \<le> 0xDF then
        (d\<lparr>bytes_needed := 1, code_point := b AND 0x1F\<rparr>, [])
      else if 0xE0 \<le> b \<and> b \<le> 0xEF then
        (d\<lparr>lower_boundary := (if b = 0xE0 then 0xA0 else lower_boundary d),
           upper_boundary := (if b = 0xED then 0x9F else upper_boundary d),
           bytes_needed := 2, code_point := b AND 0xF\<rparr>, [])
      else if 0xF0 \<le> b \<and> b \<le> 0xF4 then
        (d\<lparr>lower_boundary := (if b = 0xF0 then 0x90 else lower_boundary d),
           upper_boundary := (if b = 0xF4 then 0x8F else upper_boundary d),
           bytes_needed := 3, code_point := b AND 0x7\<rparr>, [])
      else (d, [0xFFFD]))"

text \<open>
  The handler on one byte. A byte outside the boundaries closes the open sequence with
  U+FFFD and is read again as a first byte.
\<close>

definition utf8_handler :: "decoder \<Rightarrow> nat \<Rightarrow> decoder \<times> nat list" where
  "utf8_handler d b =
     (if bytes_needed d = 0 then lead_byte d b
      else if b < lower_boundary d \<or> upper_boundary d < b then
        (let (d', out) = lead_byte (reset_decoder d) b in (d', 0xFFFD # out))
      else
        (let d1 = d\<lparr>lower_boundary := 0x80, upper_boundary := 0xBF,
                      code_point := push_bit 6 (code_point d) OR (b AND 0x3F),
                      bytes_seen := bytes_seen d + 1\<rparr>
         in if bytes_seen d1 \<noteq> bytes_needed d1 then (d1, [])
            else (reset_decoder d1, [code_point d1])))"

fun process_bytes :: "decoder \<Rightarrow> nat list \<Rightarrow> decoder \<times> nat list" where
  "process_bytes d [] = (d, [])"
| "process_bytes d (b # bs) =
     (let (d1, out1) = utf8_handler d b;
          (d2, out2) = process_bytes d1 bs
      in (d2, out1 @ out2))"

definition utf16 :: "nat \<Rightarrow> jsstring" where
  "utf16 cp =
     (if cp < 0x10000 then [cp]
      else [0xD800 + (cp - 0x10000) div 0x400, 0xDC00 + (cp - 0x10000) mod 0x400])"

text \<open>Code points to text: the flag says whether the start of the stream is already past.\<close>

fun serialize :: "bool \<Rightarrow> nat list \<Rightarrow> bool \<times> jsstring" where
  "serialize seen [] = (seen, [])"
| "serialize seen (cp # cps) =
     (if \<not> seen \<and> cp = 0xFEFF then serialize True cps
      else (let (seen', out) = serialize True cps in (seen', utf16 cp @ out)))"

definition decode_stream :: "decoder \<Rightarrow> byte list \<Rightarrow> jsstring \<times> decoder" where
  "decode_stream d v =
     (let (d', cps) = process_bytes d (map of_char v);
          (seen, out) = serialize (bom_seen d) cps
      in (out, d'\<lparr>bom_seen := seen\<rparr>))"

text \<open>
  The whole-body decoding behind \<^verbatim>\<open>res.text()\<close> and \<^verbatim>\<open>res.json()\<close>: a leading byte
  order mark is dropped, and a sequence left open at the end gives U+FFFD.
\<close>

definition utf8_decode :: "byte list \<Rightarrow> jsstring" where
  "utf8_decode v =
     (let bs = map of_char v;
          bs' = (if take 3 bs = [0xEF, 0xBB, 0xBF] then drop 3 bs else bs);
          (d, cps) = process_bytes new_TextDecoder bs';
          cps' = (if bytes_needed d \<noteq> 0 then cps @ [0xFFFD] else cps)
      in concat (map utf16 cps'))"

section \<open>The decoding loop of sendMessageStream\<close>

text \<open>
  The body of the inner loop for one line cut from the buffer: trim, skip an empty
  line, strip \<^verbatim>\<open>data:\<close>, parse, and push a truthy \<^verbatim>\<open>content\<close>. A line that does not
  parse is caught and ignored.
\<close>

definition jsonPart :: "jsstring \<Rightarrow> jsstring" where
  "jsonPart line =
     (if startsWith line (js ''data:'') then trim (slice_from line 5) else line)"

definition process_line :: "jsstring \<Rightarrow> json list \<Rightarrow> json list" where
  "process_line raw contents =
     (let line = trim raw
      in if line = [] then contents
         else
           (case JSON_parse (jsonPart line) of
              None \<Rightarrow> contents
            | Some parsed \<Rightarrow>
                (case optional_content parsed of
                   None \<Rightarrow> contents
                 | Some c \<Rightarrow> if truthy c then contents @ [c] else contents)))"

text \<open>
  \<^verbatim>\<open>while ((newlineIndex = buffer.indexOf("\n")) !== -1)\<close>: the buffer left over and
  the contents collected.
\<close>

function line_loop :: "jsstring \<Rightarrow> json list \<Rightarrow> jsstring \<times> json list" where
  "line_loop buffer contents =
     (let newlineIndex = indexOf buffer newline
      in if newlineIndex \<noteq> - 1 then
           line_loop (slice_from buffer (nat newlineIndex + 1))
             (process_line (slice buffer 0 (nat newlineIndex)) contents)
         else (buffer, contents))"
  by pat_completeness auto

termination
proof (relation "measure (\<lambda>(buffer, contents). length buffer)")
  show "wf (measure (\<lambda>(buffer, contents). length buffer))"
    by simp
next
  fix buffer :: jsstring and contents :: "json list" and x :: int
  assume "x = indexOf buffer newline" and "x \<noteq> - 1"
  then have "newline \<in> set buffer"
    by (auto simp: indexOf_def split: if_splits)
  then have "buffer \<noteq> []"
    by auto
  then show "((slice_from buffer (nat x + 1), process_line (slice buffer 0 (nat x)) contents),
              (buffer, contents)) \<in> measure (\<lambda>(buffer, contents). length buffer)"
    by (simp add: slice_from_def)
qed

text \<open>
  What \<^verbatim>\<open>reader.read()\<close> resolves to, one after the other, until the stream is done: a
  chunk of bytes, or a rejection when the transport fails. The list is the whole stream,
  so the outer loop is a recursion over it; on a stream that never ends the source does
  not return, and such a stream has no list.
\<close>

datatype read_result = Chunk "byte list" | ReadError

datatype js_error =
    Error jsstring
  | FetchRejected
  | ReadRejected

fun read_loop ::
  "decoder \<Rightarrow> jsstring \<Rightarrow> json list \<Rightarrow> read_result list \<Rightarrow> js_error + json list" where
  "read_loop decoder buffer contents [] = Inr contents"
| "read_loop decoder buffer contents (ReadError # rs) = Inl ReadRejected"
| "read_loop decoder buffer contents (Chunk v # rs) =
     (let (text, decoder') = decode_stream decoder v;
          (buffer', contents') = line_loop (buffer @ text) contents
      in read_loop decoder' buffer' contents' rs)"

definition decode_sse :: "read_result list \<Rightarrow> js_error + json list" where
  "decode_sse rs = read_loop new_TextDecoder [] [] rs"

section \<open>Requests and responses\<close>

text \<open>
  What \<^verbatim>\<open>fetch\<close> is called with. The body is kept as the value handed to fetch,
  before \<^verbatim>\<open>JSON.stringify\<close> or the multipart encoding.
\<close>

datatype part = TextPart jsstring | InlineDataPart json

record message =
  role :: jsstring
  parts :: "part list"

record state_delta =
  vehicle_id :: "jsstring option"

record payload =
  appName :: jsstring
  newMessage :: message
  sessionId :: jsstring
  stateDelta :: "state_delta option"
  streaming :: bool
  userId :: jsstring

datatype request_body =
    NoBody
  | TextBody jsstring
  | FormData "(jsstring \<times> byte list) list"
  | JsonBody payload

record request =
  http_method :: string
  url :: jsstring
  headers :: "(string \<times> string) list"
  init_body :: request_body

text \<open>
  A response: its status and its body stream, \<open>None\<close> when \<^verbatim>\<open>res.body\<close> is null.
  \<^verbatim>\<open>fetch\<close> itself rejects when the network fails.
\<close>

record response =
  status :: nat
  body :: "read_result list option"

datatype fetch_result = Rejected | Resolved response

type_synonym fetch = "request \<Rightarrow> fetch_result"

definition ok :: "response \<Rightarrow> bool" where
  "ok res \<longleftrightarrow> 200 \<le> status res \<and> status res \<le> 299"

fun read_all :: "read_result list \<Rightarrow> byte list option" where
  "read_all [] = Some []"
| "read_all (ReadError # rs) = None"
| "read_all (Chunk v # rs) = map_option (\<lambda>bs. v @ bs) (read_all rs)"

text \<open>\<^verbatim>\<open>res.text()\<close> and \<^verbatim>\<open>res.json()\<close>: \<open>None\<close> is a rejected promise.\<close>

definition res_text :: "response \<Rightarrow> jsstring option" where
  "res_text res =
     (case body res of
        None \<Rightarrow> Some []
      | Some rs \<Rightarrow> map_option utf8_decode (read_all rs))"

definition res_json :: "response \<Rightarrow> json option" where
  "res_json res =
     (case res_text res of
        None \<Rightarrow> None
      | Some t \<Rightarrow> JSON_parse t)"

definition BASE_URL :: jsstring where
  "BASE_URL = js ''https://carpulse-backend-eo6t.onrender.com''"

definition AGENT_NAME :: jsstring where
  "AGENT_NAME = js ''agent''"

definition safeJson :: "response \<Rightarrow> json" where
  "safeJson res =
     (if status res = 204 then JNull
      else (case res_json res of None \<Rightarrow> JNull | Some v \<Rightarrow> v))"

text \<open>
  The two lines every failing operation shares:
  \<^verbatim>\<open>const text = await res.text().catch(() => ""); throw new Error(text || `HTTP ${res.status}`)\<close>.
\<close>

definition http_error :: "response \<Rightarrow> js_error" where
  "http_error res =
     (let text = (case res_text res of None \<Rightarrow> [] | Some t \<Rightarrow> t)
      in Error (if text \<noteq> [] then text else js ''HTTP '' @ toString_nat (status res)))"

section \<open>Chat sessions and file upload\<close>

text \<open>
  Every operation gets the network as a function and returns the requests it issued
  together with its result, \<open>Inl\<close> for a rejection.
\<close>

definition sessions_url :: jsstring where
  "sessions_url = BASE_URL @ js ''/apps/'' @ AGENT_NAME @ js ''/users/user/sessions''"

definition listSessions_request :: request where
  "listSessions_request =
     \<lparr>http_method = ''GET'', url = sessions_url, headers = [], init_body = NoBody\<rparr>"

text \<open>The body of the \<^verbatim>\<open>try\<close> block of \<^verbatim>\<open>listSessions\<close>.\<close>

definition listSessions_try :: "fetch \<Rightarrow> js_error + json" where
  "listSessions_try fetch =
     (case fetch listSessions_request of
        Rejected \<Rightarrow> Inl FetchRejected
      | Resolved res \<Rightarrow>
          if \<not> ok res then Inr (JArr [])
          else (let v = safeJson res in Inr (if truthy v then v else JArr [])))"

definition listSessions :: "fetch \<Rightarrow> request list \<times> (js_error + json)" where
  "listSessions fetch =
     ([listSessions_request],
      case listSessions_try fetch of
        Inl err \<Rightarrow> Inr (JArr [])
      | Inr v \<Rightarrow> Inr v)"





definition getSession_request :: "jsstring \<Rightarrow> request" where
  "getSession_request sid =
     \<lparr>http_method = ''GET'', url = sessions_url @ js ''/'' @ sid, headers = [],
      init_body = NoBody\<rparr>"

definition getSession :: "fetch \<Rightarrow> jsstring \<Rightarrow> request list \<times> (js_error + json)" where
  "getSession fetch sid =
     ([getSession_request sid],
      case fetch (getSession_request sid) of
        Rejected \<Rightarrow> Inl FetchRejected
      | Resolved res \<Rightarrow>
          if \<not> ok res then Inr JNull
          else Inr (safeJson res))"



section \<open>The vehicle id pattern\<close>

text \<open>
  Regular expressions with the backtracking semantics of ECMAScript: the matches of an
  expression at a position, in the order in which the matcher tries them. A state is the
  text still to read and the text captured by group 1.
\<close>

datatype regex =
    Eps
  | Chars "nat \<Rightarrow> bool"
  | Seq regex regex
  | Alt regex regex
  | Star regex
  | Group regex

type_synonym mstate = "jsstring \<times> jsstring option"

text \<open>
  \<open>Star\<close> is greedy: one more round before stopping, and a round that reads nothing is
  given up.
\<close>

function rmatch :: "regex \<Rightarrow> mstate \<Rightarrow> mstate list" where
  "rmatch Eps st = [st]"
| "rmatch (Chars p) (s, cap) =
     (case s of [] \<Rightarrow> [] | c # cs \<Rightarrow> if p c then [(cs, cap)] else [])"
| "rmatch (Seq a b) st = concat (map (\<lambda>st'. rmatch b st') (rmatch a st))"
| "rmatch (Alt a b) st = rmatch a st @ rmatch b st"
| "rmatch (Star a) (s, cap) =
     concat (map (\<lambda>(s', cap'). if length s' < length s then rmatch (Star a) (s', cap') else [])
                 (rmatch a (s, cap))) @ [(s, cap)]"
| "rmatch (Group a) (s, cap) =
     map (\<lambda>(s', cap'). (s', Some (take (length s - length s') s))) (rmatch a (s, cap))"
  by pat_completeness auto

termination
  by (relation "measures [\<lambda>(r, st). size r, \<lambda>(r, st). length (fst st)]") auto

text \<open>
  \<^verbatim>\<open>text.match(re)\<close> without the global flag: the first match at the leftmost position
  that has one; the result is group 1.
\<close>

fun regex_match :: "regex \<Rightarrow> jsstring \<Rightarrow> jsstring option option" where
  "regex_match r [] = (case rmatch r ([], None) of [] \<Rightarrow> None | (rest, cap) # ms \<Rightarrow> Some cap)"
| "regex_match r (c # cs) =
     (case rmatch r (c # cs, None) of
        [] \<Rightarrow> regex_match r cs
      | (rest, cap) # ms \<Rightarrow> Some cap)"

text \<open>
  The flag \<^verbatim>\<open>i\<close>: two characters match when they canonicalize to the same character.
  Canonicalization maps an ASCII letter to its upper case and never maps a character
  from \<open>128\<close> on into ASCII, which is all that a pattern of ASCII characters can see of it.
\<close>

definition canonicalize :: "nat \<Rightarrow> nat" where
  "canonicalize c = (if 97 \<le> c \<and> c \<le> 122 then c - 32 else c)"

definition lit :: "char \<Rightarrow> regex" where
  "lit p = Chars (\<lambda>c. canonicalize c = canonicalize (of_char p))"

fun word :: "string \<Rightarrow> regex" where
  "word [] = Eps"
| "word [p] = lit p"
| "word (p # ps) = Seq (lit p) (word ps)"

text \<open>\<^verbatim>\<open>[a-zA-Z0-9-]\<close>, \<^verbatim>\<open>[:\s]\<close> and \<^verbatim>\<open>\s\<close>.\<close>

definition isTokenChar :: "nat \<Rightarrow> bool" where
  "isTokenChar c \<longleftrightarrow>
     (97 \<le> c \<and> c \<le> 122) \<or> (65 \<le> c \<and> c \<le> 90) \<or> (48 \<le> c \<and> c \<le> 57) \<or> c = 0x2D"

definition isSeparator :: "nat \<Rightarrow> bool" where
  "isSeparator c \<longleftrightarrow> c = 0x3A \<or> isWhiteSpace c"

text \<open>\<^verbatim>\<open>/(?:vehicle\s*id|id)[:\s]*([a-zA-Z0-9-]+)/i\<close>\<close>

definition vehicleIdPattern :: regex where
  "vehicleIdPattern =
     Seq (Alt (Seq (word ''vehicle'') (Seq (Star (Chars isWhiteSpace)) (word ''id'')))
              (word ''id''))
         (Seq (Star (Chars isSeparator))
              (Group (Seq (Chars isTokenChar) (Star (Chars isTokenChar)))))"

section \<open>sendMessageStream\<close>

text \<open>
  \<open>sessionId\<close> and \<open>text\<close> are strings or missing (\<open>None\<close>), \<open>inlineData\<close> is a
  value or missing. A missing or empty string is falsy.
\<close>

definition truthy_string :: "jsstring option \<Rightarrow> bool" where
  "truthy_string x \<longleftrightarrow> (case x of None \<Rightarrow> False | Some s \<Rightarrow> s \<noteq> [])"

definition truthy_value :: "json option \<Rightarrow> bool" where
  "truthy_value x \<longleftrightarrow> (case x of None \<Rightarrow> False | Some v \<Rightarrow> truthy v)"

definition message_parts :: "jsstring option \<Rightarrow> json option \<Rightarrow> part list" where
  "message_parts text inlineData =
     (case text of
        None \<Rightarrow> []
      | Some t \<Rightarrow> if t \<noteq> [] \<and> trim t \<noteq> [] then [TextPart t] else []) @
     (case inlineData of
        None \<Rightarrow> []
      | Some d \<Rightarrow> if truthy d then [InlineDataPart d] else [])"

definition vehicleIdMatch :: "jsstring option \<Rightarrow> jsstring option option" where
  "vehicleIdMatch text =
     (case text of
        None \<Rightarrow> None
      | Some t \<Rightarrow> if t \<noteq> [] then regex_match vehicleIdPattern t else None)"

definition make_payload :: "jsstring \<Rightarrow> jsstring option \<Rightarrow> json option \<Rightarrow> payload" where
  "make_payload sid text inlineData =
     \<lparr>appName = AGENT_NAME,
      newMessage = \<lparr>role = js ''user'', parts = message_parts text inlineData\<rparr>,
      sessionId = sid,
      stateDelta =
        (case vehicleIdMatch text of
           None \<Rightarrow> None
         | Some group1 \<Rightarrow> Some \<lparr>vehicle_id = group1\<rparr>),
      streaming = False,
      userId = js ''user''\<rparr>"

definition run_sse_request :: "payload \<Rightarrow> request" where
  "run_sse_request p =
     \<lparr>http_method = ''POST'', url = BASE_URL @ js ''/run_sse'',
      headers = [(''Content-Type'', ''application/json''), (''Accept'', ''text/event-stream'')],
      init_body = JsonBody p\<rparr>"

definition sendMessageStream ::
  "fetch \<Rightarrow> jsstring option \<Rightarrow> jsstring option \<Rightarrow> json option \<Rightarrow>
     request list \<times> (js_error + json list)" where
  "sendMessageStream fetch sid text inlineData =
     (if \<not> truthy_string sid then ([], Inl (Error (js ''No active session id'')))
      else if \<not> truthy_string text \<and> \<not> truthy_value inlineData then
        ([], Inl (Error (js ''Message empty'')))
      else
        (let req = run_sse_request (make_payload (case sid of None \<Rightarrow> [] | Some s \<Rightarrow> s) text inlineData)
         in ([req],
             case fetch req of
               Rejected \<Rightarrow> Inl FetchRejected
             | Resolved res \<Rightarrow>
                 if \<not> ok res then Inl (http_error res)
                 else
                   (case body res of
                      None \<Rightarrow> Inl (Error (js ''Streaming not supported in this browser.''))
                    | Some rs \<Rightarrow> decode_sse rs))))"

text \<open>
  Two networks to run the operations on: one on which every fetch is rejected, and one
  that answers every request with the same response.
\<close>

definition network_down :: fetch where
  "network_down req = Rejected"

definition respond :: "response \<Rightarrow> fetch" where
  "respond res req = Resolved res"

text \<open>
  The state delta said without the pattern. A text starts with the label when its first
  two letters are \<open>i\<close> and \<open>d\<close>, in either case; the token after a text is the longest
  run of letters, digits and hyphens that follows its leading colons and white space.
  The token of the text is the one after the leftmost label that has one.
\<close>

definition id_label :: "jsstring \<Rightarrow> bool" where
  "id_label s \<longleftrightarrow>
     (case s of
        a # b # rest \<Rightarrow> (a = 0x69 \<or> a = 0x49) \<and> (b = 0x64 \<or> b = 0x44)
      | _ \<Rightarrow> False)"

definition token_after :: "jsstring \<Rightarrow> jsstring" where
  "token_after s = takeWhile isTokenChar (dropWhile isSeparator s)"

definition id_token_at :: "jsstring \<Rightarrow> jsstring option" where
  "id_token_at s =
     (if id_label s \<and> token_after (drop 2 s) \<noteq> [] then Some (token_after (drop 2 s))
      else None)"

fun first_id_token :: "jsstring \<Rightarrow> jsstring option" where
  "first_id_token [] = None"
| "first_id_token (c # cs) =
     (case id_token_at (c # cs) of
        Some tok \<Rightarrow> Some tok
      | None \<Rightarrow> first_id_token cs)"

text \<open>
  An id-like token as the specification writes it, \<^verbatim>\<open>vehicle id: <token>\<close> or
  \<^verbatim>\<open>id: <token>\<close>: the label, at least one colon or white space, and a token.
\<close>

definition id_like_token_at :: "jsstring \<Rightarrow> bool" where
  "id_like_token_at s \<longleftrightarrow>
     id_label s \<and> (case drop 2 s of [] \<Rightarrow> False | c # cs \<Rightarrow> isSeparator c) \<and>
     token_after (drop 2 s) \<noteq> []"

fun has_id_like_token :: "jsstring \<Rightarrow> bool" where
  "has_id_like_token [] \<longleftrightarrow> False"
| "has_id_like_token (c # cs) \<longleftrightarrow> id_like_token_at (c # cs) \<or> has_id_like_token cs"

text \<open>A text starts with a word of the pattern, case ignored.\<close>

definition starts_ci :: "string \<Rightarrow> jsstring \<Rightarrow> bool" where
  "starts_ci w s \<longleftrightarrow> map canonicalize (take (length w) s) = map (\<lambda>p. canonicalize (of_char p)) w"

text \<open>
  The lines of a stream joined with their terminators, and what one line adds to the
  contents.
\<close>

definition join_lines :: "jsstring list \<Rightarrow> jsstring" where
  "join_lines ls = concat (map (\<lambda>l. l @ [newline]) ls)"

definition record_content :: "jsstring \<Rightarrow> json list" where
  "record_content l = process_line l []"

declare toString_nat.simps [simp del]
declare line_loop.simps [simp del]
declare rmatch.simps(5) [simp del]
declare network_down_def [simp] respond_def [simp]

section \<open>The parser has fuel enough\<close>

text \<open>
  Every parser returns a text shorter than the one it was given, so the calls nested in
  one another number at most twice the length of the text: with any fuel from there on
  \<open>parse_value\<close> gives the same result, and \<open>JSON_parse\<close> never fails for lack of fuel.
\<close>

lemma skip_ws_length: "length (skip_ws s) \<le> length s"
  by (simp add: skip_ws_def length_dropWhile_le)

lemma skip_ws_Cons_length: "skip_ws s = c # cs \<Longrightarrow> length cs < length s"
  using skip_ws_length [of s] by simp

lemma parse_chars_shorter: "parse_chars s = Some (t, r) \<Longrightarrow> length r < length s"
proof (induction s arbitrary: t r rule: parse_chars.induct)
  case 1
  then show ?case by simp
next
  case (2 c cs)
  show ?case
  proof (cases "c = 0x22")
    case True
    with "2.prems" show ?thesis by simp
  next
    case quote: False
    show ?thesis
    proof (cases "c = 0x5C")
      case False
      with quote "2.prems" "2.IH"(3) show ?thesis
        by (auto split: if_splits)
    next
      case True
      with quote "2.prems" obtain e es where cs: "cs = e # es"
        by (cases cs) auto
      show ?thesis
      proof (cases "e = 0x75")
        case True
        with quote \<open>c = 0x5C\<close> cs "2.prems" obtain u t' where
          "hex4 (take 4 es) = Some u" "parse_chars (drop 4 es) = Some (t', r)"
          by (auto split: option.splits)
        with "2.IH"(1) [OF quote \<open>c = 0x5C\<close> cs True] have "length r < length (drop 4 es)"
          by blast
        with cs show ?thesis by simp
      next
        case False
        with quote \<open>c = 0x5C\<close> cs "2.prems" obtain u t' where
          "unescape e = Some u" "parse_chars es = Some (t', r)"
          by (auto split: option.splits)
        with "2.IH"(2) [OF quote \<open>c = 0x5C\<close> cs False] have "length r < length es"
          by blast
        with cs show ?thesis by simp
      qed
    qed
  qed
qed

lemma parse_integer_shorter: "parse_integer s = Some (i, r) \<Longrightarrow> length r < length s"
  by (cases s) (auto simp: parse_integer_def length_dropWhile_le le_imp_less_Suc split: if_splits)

lemma parse_fraction_shorter: "parse_fraction s = Some (f, r) \<Longrightarrow> length r \<le> length s"
  by (cases s) (auto simp: parse_fraction_def Let_def length_dropWhile_le le_SucI split: if_splits)

lemma parse_exponent_shorter: "parse_exponent s = Some (e, r) \<Longrightarrow> length r \<le> length s"
proof (cases s)
  case Nil
  assume "parse_exponent s = Some (e, r)"
  with Nil show ?thesis by (simp add: parse_exponent_def)
next
  case (Cons c cs)
  assume p: "parse_exponent s = Some (e, r)"
  have "length (dropWhile isDigit (tl cs)) \<le> length cs"
    by (metis length_dropWhile_le length_tl le_trans diff_le_self)
  moreover have "length (dropWhile isDigit cs) \<le> length cs"
    by (rule length_dropWhile_le)
  ultimately show ?thesis
    using p Cons by (auto simp: parse_exponent_def Let_def split: if_splits)
qed

lemma parse_number_shorter: "parse_number s = Some (q, r) \<Longrightarrow> length r < length s"
proof -
  assume p: "parse_number s = Some (q, r)"
  let ?s1 = "if s \<noteq> [] \<and> hd s = 0x2D then tl s else s"
  from p obtain i s2 f s3 e where "parse_integer ?s1 = Some (i, s2)"
    "parse_fraction s2 = Some (f, s3)" "parse_exponent s3 = Some (e, r)"
    by (auto simp: parse_number_def Let_def split: option.splits)
  then have "length r < length ?s1"
    using parse_integer_shorter parse_fraction_shorter parse_exponent_shorter
    by (meson le_trans order_le_less_trans)
  moreover have "length ?s1 \<le> length s"
    by simp
  ultimately show ?thesis
    by linarith
qed

lemma parse_shorter_all:
  "(\<forall>s v r. parse_value n s = Some (v, r) \<longrightarrow> length r < length s) \<and>
   (\<forall>s acc vs r. parse_elements n s acc = Some (vs, r) \<longrightarrow> length r < length s) \<and>
   (\<forall>s acc kvs r. parse_members n s acc = Some (kvs, r) \<longrightarrow> length r < length s)"
proof (induction n)
  case 0
  show ?case by simp
next
  case (Suc n)
  then have V: "\<And>s v r. parse_value n s = Some (v, r) \<Longrightarrow> length r < length s"
    and E: "\<And>s acc vs r. parse_elements n s acc = Some (vs, r) \<Longrightarrow> length r < length s"
    and M: "\<And>s acc kvs r. parse_members n s acc = Some (kvs, r) \<Longrightarrow> length r < length s"
    by blast+
  have "length r < length s" if p: "parse_value (Suc n) s = Some (v, r)" for s v r
  proof -
    from p obtain c cs where sk: "skip_ws s = c # cs"
      by (cases "skip_ws s") auto
    then have cs: "length cs < length s"
      by (rule skip_ws_Cons_length)
    consider (obj) "c = 0x7B" | (arr) "c \<noteq> 0x7B" "c = 0x5B" | (str) "c \<noteq> 0x7B" "c \<noteq> 0x5B" "c = 0x22"
      | (num) "c \<noteq> 0x7B" "c \<noteq> 0x5B" "c \<noteq> 0x22" "c = 0x2D \<or> isDigit c"
      | (lit) "c \<noteq> 0x7B" "c \<noteq> 0x5B" "c \<noteq> 0x22" "\<not> (c = 0x2D \<or> isDigit c)"
      by blast
    then show ?thesis
    proof cases
      case obj
      with p sk obtain d ds where sk2: "skip_ws cs = d # ds"
        by (cases "skip_ws cs") auto
      then have ds: "length ds < length cs"
        by (rule skip_ws_Cons_length)
      show ?thesis
      proof (cases "d = 0x7D")
        case True
        with p sk sk2 obj have "r = ds" by simp
        with ds cs show ?thesis by simp
      next
        case False
        with p sk sk2 obj obtain kvs where "parse_members n (d # ds) [] = Some (kvs, r)"
          by auto
        then have "length r < length (d # ds)"
          by (rule M)
        with ds cs show ?thesis by simp
      qed
    next
      case arr
      with p sk obtain d ds where sk2: "skip_ws cs = d # ds"
        by (cases "skip_ws cs") auto
      then have ds: "length ds < length cs"
        by (rule skip_ws_Cons_length)
      show ?thesis
      proof (cases "d = 0x5D")
        case True
        with p sk sk2 arr have "r = ds" by simp
        with ds cs show ?thesis by simp
      next
        case False
        with p sk sk2 arr obtain vs where "parse_elements n (d # ds) [] = Some (vs, r)"
          by auto
        then have "length r < length (d # ds)"
          by (rule E)
        with ds cs show ?thesis by simp
      qed
    next
      case str
      with p sk obtain t where "parse_chars cs = Some (t, r)"
        by auto
      then have "length r < length cs"
        by (rule parse_chars_shorter)
      with cs show ?thesis by simp
    next
      case num
      with p sk obtain q where "parse_number (c # cs) = Some (q, r)"
        by auto
      then have "length r < length (c # cs)"
        by (rule parse_number_shorter)
      with cs show ?thesis by simp
    next
      case lit
      with p sk have "r = drop 4 (c # cs) \<or> r = drop 5 (c # cs)"
        by (auto split: if_splits)
      with cs show ?thesis by auto
    qed
  qed
  moreover have "length r < length s" if p: "parse_elements (Suc n) s acc = Some (vs, r)"
    for s acc vs r
  proof -
    from p obtain v r1 where v: "parse_value n s = Some (v, r1)"
      by (auto split: option.splits)
    then have r1: "length r1 < length s"
      by (rule V)
    from p v obtain c cs where sk: "skip_ws r1 = c # cs"
      by (cases "skip_ws r1") auto
    then have cs: "length cs < length r1"
      by (rule skip_ws_Cons_length)
    show ?thesis
    proof (cases "c = 0x2C")
      case True
      with p v sk have "parse_elements n cs (acc @ [v]) = Some (vs, r)"
        by simp
      then have "length r < length cs"
        by (rule E)
      with cs r1 show ?thesis by simp
    next
      case False
      with p v sk have "r = cs"
        by (auto split: if_splits)
      with cs r1 show ?thesis by simp
    qed
  qed
  moreover have "length r < length s" if p: "parse_members (Suc n) s acc = Some (kvs, r)"
    for s acc kvs r
  proof -
    from p obtain c cs where sk: "skip_ws s = c # cs" and c: "c = 0x22"
      by (cases "skip_ws s") (auto split: if_splits)
    from sk have cs: "length cs < length s"
      by (rule skip_ws_Cons_length)
    from p sk c obtain k r0 where k: "parse_chars cs = Some (k, r0)"
      by (auto split: option.splits)
    then have r0: "length r0 < length cs"
      by (rule parse_chars_shorter)
    from p sk c k obtain d ds where sk2: "skip_ws r0 = d # ds" and d: "d = 0x3A"
      by (cases "skip_ws r0") (auto split: if_splits)
    from sk2 have ds: "length ds < length r0"
      by (rule skip_ws_Cons_length)
    from p sk c k sk2 d obtain v r1 where v: "parse_value n ds = Some (v, r1)"
      by (auto split: option.splits)
    then have r1: "length r1 < length ds"
      by (rule V)
    from p sk c k sk2 d v obtain e es where sk3: "skip_ws r1 = e # es"
      by (cases "skip_ws r1") auto
    then have es: "length es < length r1"
      by (rule skip_ws_Cons_length)
    show ?thesis
    proof (cases "e = 0x2C")
      case True
      with p sk c k sk2 d v sk3 have "parse_members n es (set_prop acc k v) = Some (kvs, r)"
        by simp
      then have "length r < length es"
        by (rule M)
      with es r1 ds r0 cs show ?thesis by simp
    next
      case False
      with p sk c k sk2 d v sk3 have "r = es"
        by (auto split: if_splits)
      with es r1 ds r0 cs show ?thesis by simp
    qed
  qed
  ultimately show ?case
    by blast
qed

lemma parse_value_shorter: "parse_value n s = Some (v, r) \<Longrightarrow> length r < length s"
  using parse_shorter_all [of n] by blast

lemma fuel_enough_all:
  "(\<forall>s m. 2 * length s + 1 \<le> n \<and> 2 * length s + 1 \<le> m \<longrightarrow>
      parse_value n s = parse_value m s) \<and>
   (\<forall>s acc m. 2 * length s + 2 \<le> n \<and> 2 * length s + 2 \<le> m \<longrightarrow>
      parse_elements n s acc = parse_elements m s acc) \<and>
   (\<forall>s acc m. 2 * length s + 2 \<le> n \<and> 2 * length s + 2 \<le> m \<longrightarrow>
      parse_members n s acc = parse_members m s acc)"
proof (induction n)
  case 0
  show ?case by simp
next
  case (Suc n)
  then have V: "\<And>s m. 2 * length s + 1 \<le> n \<Longrightarrow> 2 * length s + 1 \<le> m \<Longrightarrow>
      parse_value n s = parse_value m s"
    and E: "\<And>s acc m. 2 * length s + 2 \<le> n \<Longrightarrow> 2 * length s + 2 \<le> m \<Longrightarrow>
      parse_elements n s acc = parse_elements m s acc"
    and M: "\<And>s acc m. 2 * length s + 2 \<le> n \<Longrightarrow> 2 * length s + 2 \<le> m \<Longrightarrow>
      parse_members n s acc = parse_members m s acc"
    by blast+
  have "parse_value (Suc n) s = parse_value m s"
    if n: "2 * length s + 1 \<le> Suc n" and m: "2 * length s + 1 \<le> m" for s m
  proof -
    from m obtain m' where m': "m = Suc m'"
      by (cases m) auto
    show ?thesis
    proof (cases "skip_ws s")
      case Nil
      then show ?thesis by (simp add: m')
    next
      case sk: (Cons c cs)
      then have cs: "length cs < length s"
        by (rule skip_ws_Cons_length)
      show ?thesis
      proof (cases "skip_ws cs")
        case Nil
        with sk show ?thesis by (simp add: m')
      next
        case sk2: (Cons d ds)
        then have "length ds < length cs"
          by (rule skip_ws_Cons_length)
        with cs n m m' have "2 * length (d # ds) + 2 \<le> n" "2 * length (d # ds) + 2 \<le> m'"
          by simp_all
        then have "parse_members n (d # ds) [] = parse_members m' (d # ds) []"
          and "parse_elements n (d # ds) [] = parse_elements m' (d # ds) []"
          using M [of "d # ds" m' "[]"] E [of "d # ds" m' "[]"] by blast+
        with sk sk2 show ?thesis
          by (auto simp: m')
      qed
    qed
  qed
  moreover have "parse_elements (Suc n) s acc = parse_elements m s acc"
    if n: "2 * length s + 2 \<le> Suc n" and m: "2 * length s + 2 \<le> m" for s acc m
  proof -
    from m obtain m' where m': "m = Suc m'"
      by (cases m) auto
    from n m m' have v: "parse_value n s = parse_value m' s"
      by (intro V) simp_all
    show ?thesis
    proof (cases "parse_value n s")
      case None
      with v show ?thesis by (simp add: m')
    next
      case (Some x)
      obtain w r1 where x: "x = (w, r1)"
        by (cases x)
      with Some have r1: "length r1 < length s"
        using parse_value_shorter by blast
      from v Some x have pn: "parse_value n s = Some (w, r1)" and pm: "parse_value m' s = Some (w, r1)"
        by simp_all
      show ?thesis
      proof (cases "skip_ws r1")
        case Nil
        with pn pm show ?thesis by (simp add: m')
      next
        case sk: (Cons c cs)
        then have "length cs < length r1"
          by (rule skip_ws_Cons_length)
        with r1 n m m' have "2 * length cs + 2 \<le> n" "2 * length cs + 2 \<le> m'"
          by simp_all
        then have "parse_elements n cs (acc @ [w]) = parse_elements m' cs (acc @ [w])"
          by (rule E)
        with pn pm sk show ?thesis
          by (simp add: m')
      qed
    qed
  qed
  moreover have "parse_members (Suc n) s acc = parse_members m s acc"
    if n: "2 * length s + 2 \<le> Suc n" and m: "2 * length s + 2 \<le> m" for s acc m
  proof -
    from m obtain m' where m': "m = Suc m'"
      by (cases m) auto
    show ?thesis
    proof (cases "skip_ws s")
      case Nil
      then show ?thesis by (simp add: m')
    next
      case sk: (Cons c cs)
      then have cs: "length cs < length s"
        by (rule skip_ws_Cons_length)
      show ?thesis
      proof (cases "parse_chars cs")
        case None
        with sk show ?thesis by (simp add: m')
      next
        case (Some x)
        obtain k r0 where x: "x = (k, r0)"
          by (cases x)
        with Some have r0: "length r0 < length cs"
          using parse_chars_shorter by blast
        show ?thesis
        proof (cases "skip_ws r0")
          case Nil
          with sk Some x show ?thesis by (simp add: m')
        next
          case sk2: (Cons d ds)
          then have ds: "length ds < length r0"
            by (rule skip_ws_Cons_length)
          with r0 cs n m m' have v: "parse_value n ds = parse_value m' ds"
            by (intro V) simp_all
          from Some x have k: "parse_chars cs = Some (k, r0)"
            by simp
          show ?thesis
          proof (cases "parse_value n ds")
            case None
            with v have "parse_value m' ds = None"
              by simp
            with None sk k sk2 show ?thesis by (simp add: m')
          next
            case pv: (Some y)
            obtain w r1 where y: "y = (w, r1)"
              by (cases y)
            with pv have r1: "length r1 < length ds"
              using parse_value_shorter by blast
            from v pv y have pn: "parse_value n ds = Some (w, r1)"
              and pm: "parse_value m' ds = Some (w, r1)"
              by simp_all
            show ?thesis
            proof (cases "skip_ws r1")
              case Nil
              with pn pm sk k sk2 show ?thesis by (simp add: m')
            next
              case sk3: (Cons e es)
              then have "length es < length r1"
                by (rule skip_ws_Cons_length)
              with r1 ds r0 cs n m m' have "2 * length es + 2 \<le> n" "2 * length es + 2 \<le> m'"
                by simp_all
              then have "parse_members n es (set_prop acc k w) = parse_members m' es (set_prop acc k w)"
                by (rule M)
              with pn pm sk k sk2 sk3 show ?thesis
                by (simp add: m')
            qed
          qed
        qed
      qed
    qed
  qed
  ultimately show ?case
    by blast
qed

lemma JSON_parse_fuel:
  "2 * length s + 1 \<le> n \<Longrightarrow>
   JSON_parse s =
     (case parse_value n s of
        None \<Rightarrow> None
      | Some (v, r) \<Rightarrow> if skip_ws r = [] then Some v else None)"
  using fuel_enough_all [of "2 * length s + 2"] by (simp add: JSON_parse_def)

section \<open>Chunks do not matter\<close>

text \<open>
  The decoder and the line loop are both compositional, so the result of the loop is a
  function of the concatenated bytes alone.
\<close>

lemma process_bytes_append:
  "process_bytes d (xs @ ys) =
     (let (d1, out1) = process_bytes d xs; (d2, out2) = process_bytes d1 ys
      in (d2, out1 @ out2))"
  by (induction xs arbitrary: d) (simp_all add: Let_def split: prod.splits)

lemma serialize_append:
  "serialize seen (xs @ ys) =
     (let (seen1, out1) = serialize seen xs; (seen2, out2) = serialize seen1 ys
      in (seen2, out1 @ out2))"
  by (induction xs arbitrary: seen) (simp_all add: Let_def split: prod.splits)

lemma lead_byte_bom:
  "lead_byte (d\<lparr>bom_seen := b\<rparr>) x =
     (fst (lead_byte d x)\<lparr>bom_seen := b\<rparr>, snd (lead_byte d x))"
  by (simp add: lead_byte_def)

lemma utf8_handler_bom:
  "utf8_handler (d\<lparr>bom_seen := b\<rparr>) x =
     (fst (utf8_handler d x)\<lparr>bom_seen := b\<rparr>, snd (utf8_handler d x))"
  by (simp add: utf8_handler_def reset_decoder_def lead_byte_def Let_def split: prod.splits)

lemma process_bytes_bom:
  "process_bytes (d\<lparr>bom_seen := b\<rparr>) xs =
     (fst (process_bytes d xs)\<lparr>bom_seen := b\<rparr>, snd (process_bytes d xs))"
proof (induction xs arbitrary: d)
  case Nil
  show ?case by simp
next
  case (Cons x xs)
  show ?case
    by (simp add: utf8_handler_bom Cons.IH Let_def split: prod.splits)
qed

lemma decode_stream_append:
  "decode_stream d (xs @ ys) =
     (let (t1, d1) = decode_stream d xs; (t2, d2) = decode_stream d1 ys
      in (t1 @ t2, d2))"
  by (simp add: decode_stream_def process_bytes_append serialize_append process_bytes_bom
      Let_def split: prod.splits)

lemma line_loop_no_newline:
  "newline \<notin> set buffer \<Longrightarrow> line_loop buffer contents = (buffer, contents)"
  by (subst line_loop.simps) (simp add: indexOf_def)

lemma indexOf_append:
  "c \<in> set s \<Longrightarrow> indexOf (s @ t) c = indexOf s c"
  by (simp add: indexOf_def takeWhile_append1)

lemma indexOf_line:
  "newline \<notin> set l \<Longrightarrow> indexOf (l @ newline # rest) newline = int (length l)"
proof -
  assume a: "newline \<notin> set l"
  then have "takeWhile (\<lambda>x. x \<noteq> newline) l = l"
    by auto
  then have "takeWhile (\<lambda>x. x \<noteq> newline) (l @ newline # rest) = l"
    by (simp add: takeWhile_tail)
  then show ?thesis
    by (simp add: indexOf_def)
qed

lemma length_takeWhile_member:
  "c \<in> set s \<Longrightarrow> length (takeWhile (\<lambda>x. x \<noteq> c) s) < length s"
  by (induction s) auto

lemma line_loop_line:
  assumes "newline \<notin> set l"
  shows "line_loop (l @ newline # rest) contents = line_loop rest (process_line l contents)"
  using assms
  by (subst line_loop.simps) (simp add: indexOf_line slice_def slice_from_def Let_def)

lemma process_line_append:
  "process_line l contents = contents @ record_content l"
  by (simp add: record_content_def process_line_def Let_def split: option.splits)

lemma line_loop_lines:
  assumes "\<forall>l\<in>set ls. newline \<notin> set l" and "newline \<notin> set partial"
  shows "line_loop (join_lines ls @ partial) contents =
           (partial, contents @ concat (map record_content ls))"
  using assms
proof (induction ls arbitrary: contents)
  case Nil
  then show ?case
    by (simp add: join_lines_def line_loop_no_newline)
next
  case (Cons l ls)
  have "line_loop (join_lines (l # ls) @ partial) contents =
          line_loop (join_lines ls @ partial) (process_line l contents)"
    using Cons.prems(1) line_loop_line [of l "join_lines ls @ partial" contents]
    by (simp add: join_lines_def)
  also have "\<dots> = (partial, process_line l contents @ concat (map record_content ls))"
    using Cons.IH Cons.prems by simp
  finally show ?case
    by (simp add: process_line_append)
qed

lemma line_loop_append:
  "line_loop (buffer @ t) contents =
     line_loop (fst (line_loop buffer contents) @ t) (snd (line_loop buffer contents))"
proof (induction buffer contents rule: line_loop.induct)
  case (1 buffer contents)
  show ?case
  proof (cases "newline \<in> set buffer")
    case False
    then show ?thesis
      by (simp add: line_loop_no_newline)
  next
    case True
    then have ix: "indexOf buffer newline \<noteq> - 1" and ix2: "indexOf (buffer @ t) newline = indexOf buffer newline"
      by (simp_all add: indexOf_def takeWhile_append1)
    have lt: "nat (indexOf buffer newline) < length buffer"
      using True by (simp add: indexOf_def length_takeWhile_member)
    have "line_loop (buffer @ t) contents =
            line_loop (slice_from buffer (nat (indexOf buffer newline) + 1) @ t)
              (process_line (slice buffer 0 (nat (indexOf buffer newline))) contents)"
      using ix ix2 lt
      by (subst line_loop.simps) (simp add: Let_def slice_def slice_from_def)
    also have "\<dots> = line_loop (fst (line_loop buffer contents) @ t) (snd (line_loop buffer contents))"
      using "1.IH" [OF refl ix] ix
      by (subst (2 3) line_loop.simps) (simp add: Let_def)
    finally show ?thesis .
  qed
qed

lemma line_loop_rest:
  "newline \<notin> set (fst (line_loop buffer contents))"
proof (induction buffer contents rule: line_loop.induct)
  case (1 buffer contents)
  show ?case
  proof (cases "newline \<in> set buffer")
    case False
    then show ?thesis
      by (simp add: line_loop_no_newline)
  next
    case True
    then have ix: "indexOf buffer newline \<noteq> - 1"
      by (simp add: indexOf_def)
    show ?thesis
      using "1.IH" [OF refl ix] ix
      by (subst line_loop.simps) (simp add: Let_def)
  qed
qed

lemma read_loop_chunks:
  "newline \<notin> set buffer \<Longrightarrow>
   read_loop d buffer contents (map Chunk chunks) =
     Inr (snd (line_loop (buffer @ fst (decode_stream d (concat chunks))) contents))"
proof (induction chunks arbitrary: d buffer contents)
  case Nil
  have "decode_stream d [] = ([], d)"
    by (simp add: decode_stream_def)
  with Nil show ?case
    by (simp add: line_loop_no_newline)
next
  case (Cons v chunks)
  obtain t1 d1 where d1: "decode_stream d v = (t1, d1)"
    by (cases "decode_stream d v")
  obtain b1 c1 where l1: "line_loop (buffer @ t1) contents = (b1, c1)"
    by (cases "line_loop (buffer @ t1) contents")
  have b1: "newline \<notin> set b1"
    using line_loop_rest [of "buffer @ t1" contents] l1 by simp
  have "read_loop d buffer contents (map Chunk (v # chunks)) =
          Inr (snd (line_loop (b1 @ fst (decode_stream d1 (concat chunks))) c1))"
    using Cons.IH [OF b1, of d1 c1] d1 l1 by simp
  also have "line_loop (b1 @ fst (decode_stream d1 (concat chunks))) c1 =
          line_loop ((buffer @ t1) @ fst (decode_stream d1 (concat chunks))) contents"
    using line_loop_append [of "buffer @ t1" "fst (decode_stream d1 (concat chunks))" contents] l1
    by simp
  also have "(buffer @ t1) @ fst (decode_stream d1 (concat chunks)) =
          buffer @ fst (decode_stream d (concat (v # chunks)))"
    using d1 by (simp add: decode_stream_append split: prod.splits)
  finally show ?case .
qed

lemma decode_sse_chunks:
  "decode_sse (map Chunk chunks) =
     Inr (snd (line_loop (fst (decode_stream new_TextDecoder (concat chunks))) []))"
  using read_loop_chunks [of "[]" new_TextDecoder "[]" chunks]
  by (simp add: decode_sse_def)

section \<open>Streams of ASCII records\<close>

lemma process_bytes_ascii:
  "bytes_needed d = 0 \<Longrightarrow> \<forall>b\<in>set bs. b < 128 \<Longrightarrow> process_bytes d bs = (d, bs)"
  by (induction bs) (simp_all add: utf8_handler_def lead_byte_def)

lemma serialize_ascii:
  "\<forall>c\<in>set cps. c < 128 \<Longrightarrow> snd (serialize seen cps) = cps"
  by (induction cps arbitrary: seen) (simp_all add: utf16_def case_prod_beta)

lemma decode_stream_ascii:
  assumes "\<forall>b\<in>set v. (of_char b :: nat) < 128"
  shows "fst (decode_stream new_TextDecoder v) = map of_char v"
proof -
  have "process_bytes new_TextDecoder (map of_char v) = (new_TextDecoder, map of_char v)"
    using assms by (intro process_bytes_ascii) (simp_all add: new_TextDecoder_def)
  moreover have "snd (serialize False (map of_char v)) = map of_char v"
    using assms by (intro serialize_ascii) simp
  ultimately show ?thesis
    by (simp add: decode_stream_def new_TextDecoder_def case_prod_beta)
qed

lemma trim_clean:
  "s \<noteq> [] \<Longrightarrow> \<not> isWhiteSpace (hd s) \<Longrightarrow> \<not> isWhiteSpace (last s) \<Longrightarrow> trim s = s"
proof -
  assume s: "s \<noteq> []" and h: "\<not> isWhiteSpace (hd s)" and l: "\<not> isWhiteSpace (last s)"
  have keep: "dropWhile isWhiteSpace xs = xs" if "xs \<noteq> []" "\<not> isWhiteSpace (hd xs)" for xs
    using that by (cases xs) simp_all
  have "dropWhile isWhiteSpace (rev s) = rev s"
    using s l by (intro keep) (simp_all add: hd_rev)
  then show ?thesis
    using s h by (simp add: trim_def keep)
qed

lemma trim_leading:
  "isWhiteSpace c \<Longrightarrow> trim (c # s) = trim s"
  by (simp add: trim_def)

lemma decode_sse_lines:
  assumes "fst (decode_stream new_TextDecoder (concat chunks)) = join_lines ls @ partial"
    and "\<forall>l\<in>set ls. newline \<notin> set l" and "newline \<notin> set partial"
  shows "decode_sse (map Chunk chunks) = Inr (concat (map record_content ls))"
  using assms by (simp add: decode_sse_chunks line_loop_lines)

lemma record_a: "record_content (js ''data: {\"content\":\"a\"}'') = [JStr (js ''a'')]"
proof -
  have p: "JSON_parse (js ''{\"content\":\"a\"}'') = Some (JObj [(js ''content'', JStr (js ''a''))])"
    by code_simp
  have t: "trim (js ''data: {\"content\":\"a\"}'') = js ''data: {\"content\":\"a\"}''"
    by (rule trim_clean) (simp_all add: js_def isWhiteSpace_def)
  have j: "jsonPart (js ''data: {\"content\":\"a\"}'') = js ''{\"content\":\"a\"}''"
    by (simp add: jsonPart_def startsWith_def slice_from_def js_def trim_leading trim_clean
        isWhiteSpace_def)
  show ?thesis
    unfolding record_content_def process_line_def Let_def t j p
    by (simp add: js_def)
qed

lemma record_b: "record_content (js ''data: {\"content\":\"b\"}'') = [JStr (js ''b'')]"
proof -
  have p: "JSON_parse (js ''{\"content\":\"b\"}'') = Some (JObj [(js ''content'', JStr (js ''b''))])"
    by code_simp
  have t: "trim (js ''data: {\"content\":\"b\"}'') = js ''data: {\"content\":\"b\"}''"
    by (rule trim_clean) (simp_all add: js_def isWhiteSpace_def)
  have j: "jsonPart (js ''data: {\"content\":\"b\"}'') = js ''{\"content\":\"b\"}''"
    by (simp add: jsonPart_def startsWith_def slice_from_def js_def trim_leading trim_clean
        isWhiteSpace_def)
  show ?thesis
    unfolding record_content_def process_line_def Let_def t j p
    by (simp add: js_def)
qed

lemma two_records_text:
  "fst (decode_stream new_TextDecoder
          ''data: {\"content\":\"a\"}\<newline>data: {\"content\":\"b\"}\<newline>'') =
     join_lines [js ''data: {\"content\":\"a\"}'', js ''data: {\"content\":\"b\"}''] @ []"
  by (subst decode_stream_ascii) (simp_all add: join_lines_def js_def newline_def)

text \<open>
  C1. However the byte stream of the two records \<^verbatim>\<open>data: {"content":"a"}\<close> and
  \<^verbatim>\<open>data: {"content":"b"}\<close>, each ended by a newline, is cut into chunks (two or more,
  or any other number, at any byte), the loop returns exactly \<open>["a", "b"]\<close>, in this order.
\<close>

theorem sse_two_records_any_chunking:
  assumes "concat chunks = ''data: {\"content\":\"a\"}\<newline>data: {\"content\":\"b\"}\<newline>''"
  shows "decode_sse (map Chunk chunks) = Inr [JStr (js ''a''), JStr (js ''b'')]"
proof -
  have "decode_sse (map Chunk chunks) =
          Inr (concat (map record_content
                 [js ''data: {\"content\":\"a\"}'', js ''data: {\"content\":\"b\"}'']))"
  proof (rule decode_sse_lines [where partial = "[]"])
    show "fst (decode_stream new_TextDecoder (concat chunks)) =
            join_lines [js ''data: {\"content\":\"a\"}'', js ''data: {\"content\":\"b\"}''] @ []"
      unfolding assms by (rule two_records_text)
  qed (simp_all add: js_def newline_def)
  then show ?thesis
    by (simp add: record_a record_b)
qed

theorem sse_two_records_any_chunking_witness:
  "concat [''data: {\"con'', ''tent\":\"a\"}\<newline>da'', ''ta: {\"content\":\"b\"}\<newline>''] =
     ''data: {\"content\":\"a\"}\<newline>data: {\"content\":\"b\"}\<newline>'' \<and>
   decode_sse [Chunk ''data: {\"con'', Chunk ''tent\":\"a\"}\<newline>da'',
               Chunk ''ta: {\"content\":\"b\"}\<newline>''] =
     Inr [JStr (js ''a''), JStr (js ''b'')]"
  using sse_two_records_any_chunking
    [of "[''data: {\"con'', ''tent\":\"a\"}\<newline>da'', ''ta: {\"content\":\"b\"}\<newline>'']"]
  by simp

section \<open>Lines of the stream\<close>

lemma JSON_parse_empty: "JSON_parse [] = None"
  by (simp add: JSON_parse_def skip_ws_def)

lemma jsonPart_empty: "jsonPart [] = []"
  by (simp add: jsonPart_def startsWith_def js_def)

lemma record_content_malformed:
  "JSON_parse (jsonPart (trim l)) = None \<Longrightarrow> record_content l = []"
  by (simp add: record_content_def process_line_def Let_def)

lemma record_content_parsed:
  assumes "JSON_parse (jsonPart (trim l)) = Some parsed"
  shows "record_content l =
           (case optional_content parsed of
              None \<Rightarrow> []
            | Some c \<Rightarrow> if truthy c then [c] else [])"
proof -
  have "trim l \<noteq> []"
    using assms by (auto simp: jsonPart_empty JSON_parse_empty)
  then show ?thesis
    using assms by (simp add: record_content_def process_line_def Let_def split: option.splits)
qed

text \<open>
  C5. A complete line whose candidate text does not parse is dropped without a trace:
  the loop still returns normally (\<open>Inr\<close>), and the result is what the lines before it
  contribute followed by what the lines after it contribute, as if the line were absent.
\<close>

theorem malformed_line_discarded:
  assumes "fst (decode_stream new_TextDecoder (concat chunks)) =
             join_lines (before @ [bad] @ after) @ partial"
    and "\<forall>l\<in>set (before @ [bad] @ after). newline \<notin> set l"
    and "newline \<notin> set partial"
    and "JSON_parse (jsonPart (trim bad)) = None"
  shows "decode_sse (map Chunk chunks) =
           Inr (concat (map record_content before) @ concat (map record_content after))"
proof -
  have "decode_sse (map Chunk chunks) =
          Inr (concat (map record_content (before @ [bad] @ after)))"
    using assms(1-3) by (rule decode_sse_lines)
  moreover have "record_content bad = []"
    using assms(4) by (rule record_content_malformed)
  ultimately show ?thesis
    by simp
qed

lemma three_lines_text:
  "fst (decode_stream new_TextDecoder
          (concat [''data: {\"content\":\"a\"}\<newline>data: n'',
                   ''ot-json\<newline>data: {\"content\":\"b\"}\<newline>''])) =
     join_lines ([js ''data: {\"content\":\"a\"}''] @ [js ''data: not-json''] @
                 [js ''data: {\"content\":\"b\"}'']) @ []"
  by (subst decode_stream_ascii) (simp_all add: join_lines_def js_def newline_def)

theorem malformed_line_discarded_witness:
  "decode_sse [Chunk ''data: {\"content\":\"a\"}\<newline>data: n'',
               Chunk ''ot-json\<newline>data: {\"content\":\"b\"}\<newline>''] =
     Inr [JStr (js ''a''), JStr (js ''b'')]"
proof -
  have bad: "JSON_parse (jsonPart (trim (js ''data: not-json''))) = None"
  proof -
    have "trim (js ''data: not-json'') = js ''data: not-json''"
      by (rule trim_clean) (simp_all add: js_def isWhiteSpace_def)
    moreover have "jsonPart (js ''data: not-json'') = js ''not-json''"
      by (simp add: jsonPart_def startsWith_def slice_from_def js_def trim_leading trim_clean
          isWhiteSpace_def)
    moreover have "JSON_parse (js ''not-json'') = None"
      by code_simp
    ultimately show ?thesis
      by simp
  qed
  have "decode_sse (map Chunk [''data: {\"content\":\"a\"}\<newline>data: n'',
                               ''ot-json\<newline>data: {\"content\":\"b\"}\<newline>'']) =
          Inr (concat (map record_content [js ''data: {\"content\":\"a\"}'']) @
               concat (map record_content [js ''data: {\"content\":\"b\"}'']))"
    using three_lines_text
  proof (rule malformed_line_discarded)
    show "\<forall>l\<in>set ([js ''data: {\"content\":\"a\"}''] @ [js ''data: not-json''] @
                     [js ''data: {\"content\":\"b\"}'']). newline \<notin> set l"
      by (simp add: js_def newline_def)
    show "newline \<notin> set []"
      by simp
    show "JSON_parse (jsonPart (trim (js ''data: not-json''))) = None"
      by (rule bad)
  qed
  then show ?thesis
    by (simp add: record_a record_b)
qed

text \<open>
  C6. Text left in the buffer at the end of the stream without a newline is dropped
  unparsed: the result is made of the complete lines only, whatever the leftover is, and
  the leftover is still in the buffer when the loop ends.
\<close>

theorem trailing_partial_line_dropped:
  assumes "fst (decode_stream new_TextDecoder (concat chunks)) = join_lines ls @ partial"
    and "\<forall>l\<in>set ls. newline \<notin> set l"
    and "newline \<notin> set partial"
  shows "decode_sse (map Chunk chunks) = Inr (concat (map record_content ls)) \<and>
         line_loop (join_lines ls @ partial) [] = (partial, concat (map record_content ls))"
  using assms by (simp add: decode_sse_lines line_loop_lines)

lemma record_and_partial_text:
  "fst (decode_stream new_TextDecoder
          (concat [''data: {\"content\":\"a\"}\<newline>'', ''data: {\"content\":\"b\"}''])) =
     join_lines [js ''data: {\"content\":\"a\"}''] @ js ''data: {\"content\":\"b\"}''"
  by (subst decode_stream_ascii) (simp_all add: join_lines_def js_def newline_def)

theorem trailing_partial_line_dropped_witness:
  "decode_sse [Chunk ''data: {\"content\":\"a\"}\<newline>'', Chunk ''data: {\"content\":\"b\"}''] =
     Inr [JStr (js ''a'')] \<and>
   fst (line_loop (join_lines [js ''data: {\"content\":\"a\"}''] @ js ''data: {\"content\":\"b\"}'') []) =
     js ''data: {\"content\":\"b\"}''"
proof -
  have "\<forall>l\<in>set [js ''data: {\"content\":\"a\"}'']. newline \<notin> set l"
    by (simp add: js_def newline_def)
  moreover have "newline \<notin> set (js ''data: {\"content\":\"b\"}'')"
    by (simp add: js_def newline_def)
  ultimately show ?thesis
    using trailing_partial_line_dropped [OF record_and_partial_text]
    by (simp add: record_a)
qed

lemma record_empty_content:
  "JSON_parse (jsonPart (trim (js ''data: {\"content\":\"\"}''))) =
     Some (JObj [(js ''content'', JStr [])])"
proof -
  have "trim (js ''data: {\"content\":\"\"}'') = js ''data: {\"content\":\"\"}''"
    by (rule trim_clean) (simp_all add: js_def isWhiteSpace_def)
  moreover have "jsonPart (js ''data: {\"content\":\"\"}'') = js ''{\"content\":\"\"}''"
    by (simp add: jsonPart_def startsWith_def slice_from_def js_def trim_leading trim_clean
        isWhiteSpace_def)
  moreover have "JSON_parse (js ''{\"content\":\"\"}'') = Some (JObj [(js ''content'', JStr [])])"
    by code_simp
  ultimately show ?thesis
    by simp
qed

lemma record_a_parsed:
  "JSON_parse (jsonPart (trim (js ''data: {\"content\":\"a\"}''))) =
     Some (JObj [(js ''content'', JStr (js ''a''))])"
proof -
  have "trim (js ''data: {\"content\":\"a\"}'') = js ''data: {\"content\":\"a\"}''"
    by (rule trim_clean) (simp_all add: js_def isWhiteSpace_def)
  moreover have "jsonPart (js ''data: {\"content\":\"a\"}'') = js ''{\"content\":\"a\"}''"
    by (simp add: jsonPart_def startsWith_def slice_from_def js_def trim_leading trim_clean
        isWhiteSpace_def)
  moreover have "JSON_parse (js ''{\"content\":\"a\"}'') =
      Some (JObj [(js ''content'', JStr (js ''a''))])"
    by code_simp
  ultimately show ?thesis
    by simp
qed

lemma empty_content_text:
  "fst (decode_stream new_TextDecoder (concat [''data: {\"content\":\"\"}\<newline>''])) =
     join_lines [js ''data: {\"content\":\"\"}''] @ []"
  by (subst decode_stream_ascii) (simp_all add: join_lines_def js_def newline_def)

text \<open>
  C2, as stated, fails: the record \<^verbatim>\<open>data: {"content":""}\<close> parses to an object that has a
  \<^verbatim>\<open>content\<close> field, and nothing is appended, because the guard \<^verbatim>\<open>if (parsed?.content)\<close>
  tests the value for truthiness.
\<close>

theorem content_field_appended_counterexample:
  "JSON_parse (jsonPart (trim (js ''data: {\"content\":\"\"}''))) =
     Some (JObj [(js ''content'', JStr [])]) \<and>
   optional_content (JObj [(js ''content'', JStr [])]) = Some (JStr []) \<and>
   decode_sse [Chunk ''data: {\"content\":\"\"}\<newline>''] = Inr []"
proof -
  have "record_content (js ''data: {\"content\":\"\"}'') = []"
    by (simp add: record_content_parsed [OF record_empty_content])
  moreover have "decode_sse (map Chunk [''data: {\"content\":\"\"}\<newline>'']) =
      Inr (concat (map record_content [js ''data: {\"content\":\"\"}'']))"
    using empty_content_text by (rule decode_sse_lines) (simp_all add: js_def newline_def)
  ultimately show ?thesis
    using record_empty_content by simp
qed

text \<open>
  C2, amended. For a complete line whose candidate text parses to a value with a
  \<^verbatim>\<open>content\<close> field, the value of the field is appended, in the place of the line,
  exactly when it is truthy; a falsy value (\<^verbatim>\<open>null\<close>, \<^verbatim>\<open>false\<close>, \<^verbatim>\<open>0\<close>, \<^verbatim>\<open>""\<close>) is skipped.
\<close>

theorem content_appended_iff_truthy:
  assumes "fst (decode_stream new_TextDecoder (concat chunks)) =
             join_lines (before @ [l] @ after) @ partial"
    and "\<forall>l\<in>set (before @ [l] @ after). newline \<notin> set l"
    and "newline \<notin> set partial"
    and "JSON_parse (jsonPart (trim l)) = Some parsed"
    and "optional_content parsed = Some c"
  shows "decode_sse (map Chunk chunks) =
           Inr (concat (map record_content before) @ (if truthy c then [c] else []) @
                concat (map record_content after))"
proof -
  have "decode_sse (map Chunk chunks) = Inr (concat (map record_content (before @ [l] @ after)))"
    using assms(1-3) by (rule decode_sse_lines)
  moreover have "record_content l = (if truthy c then [c] else [])"
    using record_content_parsed [OF assms(4)] assms(5) by simp
  ultimately show ?thesis
    by simp
qed

lemma truthy_and_falsy_text:
  "fst (decode_stream new_TextDecoder
          (concat [''data: {\"content\":\"a\"}\<newline>data: {\"content\":\"\"}\<newline>''])) =
     join_lines ([] @ [js ''data: {\"content\":\"a\"}''] @ [js ''data: {\"content\":\"\"}'']) @ []"
  by (subst decode_stream_ascii) (simp_all add: join_lines_def js_def newline_def)

theorem content_appended_iff_truthy_witness:
  "decode_sse [Chunk ''data: {\"content\":\"a\"}\<newline>data: {\"content\":\"\"}\<newline>''] =
     Inr [JStr (js ''a'')]"
proof -
  have "decode_sse (map Chunk [''data: {\"content\":\"a\"}\<newline>data: {\"content\":\"\"}\<newline>'']) =
          Inr (concat (map record_content []) @
               (if truthy (JStr (js ''a'')) then [JStr (js ''a'')] else []) @
               concat (map record_content [js ''data: {\"content\":\"\"}'']))"
    using truthy_and_falsy_text
  proof (rule content_appended_iff_truthy)
    show "\<forall>l\<in>set ([] @ [js ''data: {\"content\":\"a\"}''] @ [js ''data: {\"content\":\"\"}'']).
            newline \<notin> set l"
      by (simp add: js_def newline_def)
    show "newline \<notin> set []"
      by simp
    show "JSON_parse (jsonPart (trim (js ''data: {\"content\":\"a\"}''))) =
            Some (JObj [(js ''content'', JStr (js ''a''))])"
      by (rule record_a_parsed)
    show "optional_content (JObj [(js ''content'', JStr (js ''a''))]) = Some (JStr (js ''a''))"
      by simp
  qed
  moreover have "record_content (js ''data: {\"content\":\"\"}'') = []"
    by (simp add: record_content_parsed [OF record_empty_content])
  ultimately show ?thesis
    by (simp add: js_def)
qed

section \<open>Session operations\<close>

lemma safeJson_204: "status res = 204 \<Longrightarrow> safeJson res = JNull"
  by (simp add: safeJson_def)

lemma safeJson_unparsable: "res_json res = None \<Longrightarrow> safeJson res = JNull"
  by (simp add: safeJson_def)

lemma listSessions_never_fails: "\<exists>v. snd (listSessions fetch) = Inr v"
  by (simp add: listSessions_def split: sum.splits)




text \<open>
  C3, as stated, fails for \<^verbatim>\<open>getSession\<close>: it awaits \<^verbatim>\<open>fetch\<close> outside any
  \<^verbatim>\<open>try\<close>, so a rejected fetch (the network is down) reaches the caller as an error.
\<close>

theorem getSession_propagates_counterexample:
  "snd (getSession network_down (js ''s1'')) = Inl FetchRejected"
  by (simp add: getSession_def)

text \<open>
  C3, amended. \<^verbatim>\<open>listSessions\<close> turns every failure (a rejected fetch, a non-success
  status, a body that cannot be read or parsed) into the empty sequence and never fails.
  \<^verbatim>\<open>getSession\<close> turns a non-success status and a body that cannot be read or parsed
  into \<^verbatim>\<open>null\<close>; the only error it passes on is the rejection of the fetch itself.
\<close>

theorem sessions_silent_degradation:
  "(f1 listSessions_request = Rejected \<longrightarrow> snd (listSessions f1) = Inr (JArr [])) \<and>
   (f2 listSessions_request = Resolved r2 \<and> \<not> ok r2 \<longrightarrow> snd (listSessions f2) = Inr (JArr [])) \<and>
   (f3 listSessions_request = Resolved r3 \<and> ok r3 \<and> res_json r3 = None \<longrightarrow>
      snd (listSessions f3) = Inr (JArr [])) \<and>
   snd (listSessions f) \<noteq> Inl e \<and>
   (f4 (getSession_request sid) = Resolved r4 \<and> \<not> ok r4 \<longrightarrow> snd (getSession f4 sid) = Inr JNull) \<and>
   (f5 (getSession_request sid) = Resolved r5 \<and> ok r5 \<and> res_json r5 = None \<longrightarrow>
      snd (getSession f5 sid) = Inr JNull) \<and>
   (snd (getSession f6 sid) = Inl e \<longleftrightarrow> f6 (getSession_request sid) = Rejected \<and> e = FetchRejected)"
  by (auto simp: listSessions_def listSessions_try_def getSession_def safeJson_unparsable
      split: sum.splits fetch_result.splits)


lemma utf8_decode_ascii:
  assumes "\<forall>b\<in>set v. (of_char b :: nat) < 128"
  shows "utf8_decode v = map of_char v"
proof -
  have no_bom: "take 3 (map of_char v) \<noteq> [0xEF, 0xBB, 0xBF :: nat]"
  proof
    assume eq: "take 3 (map of_char v) = [0xEF, 0xBB, 0xBF :: nat]"
    have "(0xEF :: nat) \<in> set (take 3 (map of_char v))"
      unfolding eq by simp
    then have "(0xEF :: nat) \<in> set (map of_char v)"
      by (rule in_set_takeD)
    with assms show False
      by auto
  qed
  have pb: "process_bytes new_TextDecoder (map of_char v) = (new_TextDecoder, map of_char v)"
    using assms by (intro process_bytes_ascii) (simp_all add: new_TextDecoder_def)
  have units: "concat (map utf16 cps) = cps" if "\<forall>c\<in>set cps. c < 128" for cps
    using that by (induction cps) (simp_all add: utf16_def)
  have "concat (map utf16 (map of_char v)) = map of_char v"
    by (rule units) (use assms in simp)
  then show ?thesis
    using no_bom pb by (simp add: utf8_decode_def Let_def new_TextDecoder_def del: map_map)
qed

theorem sessions_silent_degradation_witness:
  "snd (listSessions network_down) = Inr (JArr []) \<and>
   snd (listSessions (respond \<lparr>status = 500, body = None\<rparr>)) = Inr (JArr []) \<and>
   snd (listSessions (respond \<lparr>status = 200, body = Some [Chunk ''<html>'']\<rparr>)) =
     Inr (JArr []) \<and>
   snd (getSession (respond \<lparr>status = 404, body = None\<rparr>) (js ''s1'')) = Inr JNull \<and>
   snd (getSession (respond \<lparr>status = 200, body = Some [Chunk ''<html>'']\<rparr>) (js ''s1'')) =
     Inr JNull \<and>
   snd (getSession network_down (js ''s1'')) = Inl FetchRejected"
proof -
  have "utf8_decode ''<html>'' = js ''<html>''"
    by (subst utf8_decode_ascii) (simp_all add: js_def)
  moreover have "JSON_parse (js ''<html>'') = None"
    by code_simp
  ultimately have "res_json \<lparr>status = 200, body = Some [Chunk ''<html>'']\<rparr> = None"
    by (simp add: res_json_def res_text_def)
  then show ?thesis
    using sessions_silent_degradation
      [of network_down
          "respond \<lparr>status = 500, body = None\<rparr>" "\<lparr>status = 500, body = None\<rparr>"
          "respond \<lparr>status = 200, body = Some [Chunk ''<html>'']\<rparr>"
          "\<lparr>status = 200, body = Some [Chunk ''<html>'']\<rparr>"
          network_down FetchRejected
          "respond \<lparr>status = 404, body = None\<rparr>" "js ''s1''"
          "\<lparr>status = 404, body = None\<rparr>"
          "respond \<lparr>status = 200, body = Some [Chunk ''<html>'']\<rparr>"
          "\<lparr>status = 200, body = Some [Chunk ''<html>'']\<rparr>"
          network_down]
    by (simp add: ok_def)
qed





lemma falsy_values:
  "\<not> truthy v \<longleftrightarrow>
     v = JNull \<or> v = JBool False \<or> (\<exists>q. v = JNum q \<and> \<bar>q\<bar> \<le> 1 / 2 ^ 1075) \<or> v = JStr []"
  by (cases v) auto

text \<open>
  C10. When a successful response to \<^verbatim>\<open>listSessions\<close>, other than 204, has a body that
  parses to a falsy value (such as \<^verbatim>\<open>null\<close>, \<^verbatim>\<open>false\<close>, \<^verbatim>\<open>0\<close> or \<^verbatim>\<open>""\<close>), the result is the
  empty sequence; and \<^verbatim>\<open>safeJson\<close> gives \<^verbatim>\<open>null\<close> on every 204 response and on every body
  that does not parse.
\<close>

theorem listSessions_falsy_body_safeJson_null:
  "(fetch listSessions_request = Resolved res \<and> ok res \<and> status res \<noteq> 204 \<and>
      res_json res = Some v \<and> \<not> truthy v \<longrightarrow>
      snd (listSessions fetch) = Inr (JArr [])) \<and>
   \<not> truthy JNull \<and> \<not> truthy (JBool False) \<and> \<not> truthy (JNum 0) \<and> \<not> truthy (JStr []) \<and>
   (status r1 = 204 \<longrightarrow> safeJson r1 = JNull) \<and>
   (res_json r2 = None \<longrightarrow> safeJson r2 = JNull)"
proof -
  have "snd (listSessions fetch) = Inr (JArr [])"
    if "fetch listSessions_request = Resolved res" "ok res" "res_json res = Some v" "\<not> truthy v"
    using that by (simp add: listSessions_def listSessions_try_def safeJson_def)
  then show ?thesis
    by (simp add: safeJson_204 safeJson_unparsable)
qed

theorem listSessions_falsy_body_safeJson_null_witness:
  "snd (listSessions (respond \<lparr>status = 200, body = Some [Chunk ''0'']\<rparr>)) = Inr (JArr []) \<and>
   safeJson \<lparr>status = 204, body = Some [Chunk ''[1]'']\<rparr> = JNull \<and>
   safeJson \<lparr>status = 200, body = Some [Chunk ''<html>'']\<rparr> = JNull"
proof -
  have "utf8_decode ''0'' = js ''0''"
    by (subst utf8_decode_ascii) (simp_all add: js_def)
  moreover have "JSON_parse (js ''0'') = Some (JNum 0)"
    by code_simp
  ultimately have zero: "res_json \<lparr>status = 200, body = Some [Chunk ''0'']\<rparr> = Some (JNum 0)"
    by (simp add: res_json_def res_text_def)
  have "utf8_decode ''<html>'' = js ''<html>''"
    by (subst utf8_decode_ascii) (simp_all add: js_def)
  moreover have "JSON_parse (js ''<html>'') = None"
    by code_simp
  ultimately have unparsable: "res_json \<lparr>status = 200, body = Some [Chunk ''<html>'']\<rparr> = None"
    by (simp add: res_json_def res_text_def)
  show ?thesis
    using listSessions_falsy_body_safeJson_null
      [of "respond \<lparr>status = 200, body = Some [Chunk ''0'']\<rparr>"
          "\<lparr>status = 200, body = Some [Chunk ''0'']\<rparr>" "JNum 0"
          "\<lparr>status = 204, body = Some [Chunk ''[1]'']\<rparr>"
          "\<lparr>status = 200, body = Some [Chunk ''<html>'']\<rparr>"]
      zero unparsable
    by (simp add: ok_def)
qed

section \<open>The pattern finds the token after the leftmost label\<close>

text \<open>
  A star over single characters is tried longest first, and what follows it in the
  pattern cannot start with one of those characters, so nothing but the longest run is
  ever taken. The alternative \<^verbatim>\<open>vehicle\s*id\<close> ends in the same label as \<^verbatim>\<open>id\<close> and holds no
  other, so it changes where a match starts, never the token. Hence the pattern finds
  the token that \<open>first_id_token\<close> describes.
\<close>

lemma star_chars:
  "\<exists>others. rmatch (Star (Chars p)) (s, cap) = (dropWhile p s, cap) # others \<and>
     (\<forall>y\<in>set others. fst y \<noteq> [] \<and> p (hd (fst y)))"
proof (induction s)
  case Nil
  show ?case
    by (subst rmatch.simps(5)) simp
next
  case (Cons c cs)
  show ?case
  proof (cases "p c")
    case False
    then show ?thesis
      by (subst rmatch.simps(5)) simp
  next
    case True
    from Cons obtain others where o: "rmatch (Star (Chars p)) (cs, cap) = (dropWhile p cs, cap) # others"
      and a: "\<forall>y\<in>set others. fst y \<noteq> [] \<and> p (hd (fst y))"
      by blast
    have "rmatch (Star (Chars p)) (c # cs, cap) =
            (dropWhile p (c # cs), cap) # (others @ [(c # cs, cap)])"
      using True o by (subst rmatch.simps(5)) simp
    moreover have "\<forall>y\<in>set (others @ [(c # cs, cap)]). fst y \<noteq> [] \<and> p (hd (fst y))"
      using a True by simp
    ultimately show ?thesis
      by blast
  qed
qed

lemma rmatch_star_then:
  assumes "\<And>s' c. s' \<noteq> [] \<Longrightarrow> p (hd s') \<Longrightarrow> rmatch g (s', c) = []"
  shows "rmatch (Seq (Star (Chars p)) g) (s, cap) = rmatch g (dropWhile p s, cap)"
proof -
  from star_chars [of p s cap] obtain others where
    o: "rmatch (Star (Chars p)) (s, cap) = (dropWhile p s, cap) # others"
    and a: "\<forall>y\<in>set others. fst y \<noteq> [] \<and> p (hd (fst y))"
    by blast
  have "rmatch g y = []" if "y \<in> set others" for y
    using that a assms [of "fst y" "snd y"] by simp
  then have "concat (map (\<lambda>st'. rmatch g st') others) = []"
    by simp
  with o show ?thesis
    by simp
qed

lemma rmatch_lit:
  "rmatch (lit p) (s, cap) =
     (if s \<noteq> [] \<and> canonicalize (hd s) = canonicalize (of_char p) then [(tl s, cap)] else [])"
  by (cases s) (simp_all add: lit_def)

lemma rmatch_word:
  "rmatch (word w) (s, cap) = (if starts_ci w s then [(drop (length w) s, cap)] else [])"
proof (induction w arbitrary: s rule: word.induct)
  case 1
  show ?case by (simp add: starts_ci_def)
next
  case (2 p)
  show ?case
    by (cases s) (auto simp: rmatch_lit starts_ci_def)
next
  case (3 p q ps)
  show ?case
  proof (cases s)
    case Nil
    then show ?thesis
      by (simp add: rmatch_lit starts_ci_def)
  next
    case (Cons c cs)
    have "starts_ci (p # q # ps) (c # cs) \<longleftrightarrow>
            canonicalize c = canonicalize (of_char p) \<and> starts_ci (q # ps) cs"
      by (simp add: starts_ci_def)
    with Cons "3.IH" [of cs] show ?thesis
      by (simp add: rmatch_lit)
  qed
qed

lemma canonicalize_i: "canonicalize a = 0x49 \<longleftrightarrow> a = 0x69 \<or> a = 0x49"
  by (auto simp: canonicalize_def)

lemma canonicalize_d: "canonicalize a = 0x44 \<longleftrightarrow> a = 0x64 \<or> a = 0x44"
  by (auto simp: canonicalize_def)

lemma starts_ci_id: "starts_ci ''id'' s \<longleftrightarrow> id_label s"
proof (cases s)
  case Nil
  then show ?thesis by (simp add: starts_ci_def id_label_def)
next
  case (Cons a t)
  then show ?thesis
    by (cases t) (auto simp: starts_ci_def id_label_def canonicalize_i canonicalize_d
        canonicalize_def)
qed

lemma separator_not_token: "isSeparator c \<Longrightarrow> \<not> isTokenChar c"
  by (auto simp: isSeparator_def isTokenChar_def isWhiteSpace_def)

lemma whitespace_not_i: "isWhiteSpace c \<Longrightarrow> canonicalize c \<noteq> 0x49"
  by (auto simp: isWhiteSpace_def canonicalize_def)

lemma id_label_hd: "id_label s \<Longrightarrow> s \<noteq> [] \<and> canonicalize (hd s) = 0x49"
  by (cases s) (auto simp: id_label_def canonicalize_i split: list.splits)

lemma take_minus_dropWhile: "take (length s - length (dropWhile p s)) s = takeWhile p s"
proof -
  have "length s - length (dropWhile p s) = length (takeWhile p s)"
    by (metis add_diff_cancel_right' length_append takeWhile_dropWhile_id)
  then show ?thesis
    by (simp add: takeWhile_eq_take [symmetric])
qed

lemma rmatch_token_group:
  "rmatch (Group (Seq (Chars isTokenChar) (Star (Chars isTokenChar)))) (s, cap) =
     [] \<and> takeWhile isTokenChar s = [] \<or>
   (\<exists>others. rmatch (Group (Seq (Chars isTokenChar) (Star (Chars isTokenChar)))) (s, cap) =
      (dropWhile isTokenChar s, Some (takeWhile isTokenChar s)) # others \<and>
      takeWhile isTokenChar s \<noteq> [])"
proof (cases s)
  case Nil
  then show ?thesis by simp
next
  case (Cons c cs)
  show ?thesis
  proof (cases "isTokenChar c")
    case False
    with Cons show ?thesis by simp
  next
    case True
    from star_chars [of isTokenChar cs cap] obtain others where
      o: "rmatch (Star (Chars isTokenChar)) (cs, cap) = (dropWhile isTokenChar cs, cap) # others"
      by blast
    have "take (length (c # cs) - length (dropWhile isTokenChar (c # cs))) (c # cs) =
            takeWhile isTokenChar (c # cs)"
      by (rule take_minus_dropWhile)
    with True have t: "take (Suc (length cs) - length (dropWhile isTokenChar cs)) (c # cs) =
            c # takeWhile isTokenChar cs"
      by simp
    show ?thesis
      using Cons True o t by simp
  qed
qed

lemma rmatch_separators_token:
  "rmatch (Seq (Star (Chars isSeparator))
             (Group (Seq (Chars isTokenChar) (Star (Chars isTokenChar))))) (s, cap) =
   rmatch (Group (Seq (Chars isTokenChar) (Star (Chars isTokenChar))))
     (dropWhile isSeparator s, cap)"
proof (rule rmatch_star_then)
  fix s' :: jsstring and c :: "jsstring option"
  assume "s' \<noteq> []" and "isSeparator (hd s')"
  then show "rmatch (Group (Seq (Chars isTokenChar) (Star (Chars isTokenChar)))) (s', c) = []"
    by (cases s') (simp_all add: separator_not_token)
qed

lemma rmatch_spaces_id:
  "rmatch (Seq (Star (Chars isWhiteSpace)) (word ''id'')) (s, cap) =
   rmatch (word ''id'') (dropWhile isWhiteSpace s, cap)"
proof (rule rmatch_star_then)
  fix s' :: jsstring and c :: "jsstring option"
  assume "s' \<noteq> []" and "isWhiteSpace (hd s')"
  then have "\<not> id_label s'"
    using id_label_hd whitespace_not_i by blast
  then show "rmatch (word ''id'') (s', c) = []"
    by (simp only: rmatch_word starts_ci_id if_False)
qed

lemma starts_ci_Cons:
  "starts_ci (p # ps) s \<Longrightarrow>
     \<exists>c cs. s = c # cs \<and> canonicalize c = canonicalize (of_char p) \<and> starts_ci ps cs"
  by (cases s) (auto simp: starts_ci_def)

lemma vehicle_not_id: "starts_ci ''vehicle'' s \<Longrightarrow> \<not> id_label s"
proof
  assume "starts_ci ''vehicle'' s" and "id_label s"
  from this(1) obtain c cs where "s = c # cs" "canonicalize c = canonicalize (of_char CHR ''v'')"
    using starts_ci_Cons by blast
  moreover from \<open>id_label s\<close> have "canonicalize (hd s) = 0x49"
    by (simp add: id_label_hd)
  ultimately show False
    by (simp add: canonicalize_def)
qed

lemma rmatch_Seq_single: "rmatch a st = [st1] \<Longrightarrow> rmatch (Seq a b) st = rmatch b st1"
  by simp

lemma rmatch_Seq_none: "rmatch a st = [] \<Longrightarrow> rmatch (Seq a b) st = []"
  by simp

lemma rmatch_vehicle:
  "rmatch (word ''vehicle'') (s, cap) = (if starts_ci ''vehicle'' s then [(drop 7 s, cap)] else [])"
proof -
  have "length ''vehicle'' = 7"
    by simp
  then show ?thesis
    by (simp only: rmatch_word)
qed

lemma rmatch_id_label:
  "rmatch (word ''id'') (s, cap) = (if id_label s then [(drop 2 s, cap)] else [])"
proof -
  have "length ''id'' = 2"
    by simp
  then show ?thesis
    by (simp only: rmatch_word starts_ci_id)
qed

lemma rmatch_vehicle_label:
  "rmatch (Seq (word ''vehicle'') (Seq (Star (Chars isWhiteSpace)) (word ''id''))) (s, cap) =
     (if starts_ci ''vehicle'' s \<and> id_label (dropWhile isWhiteSpace (drop 7 s))
      then [(drop 2 (dropWhile isWhiteSpace (drop 7 s)), cap)] else [])"
proof (cases "starts_ci ''vehicle'' s")
  case False
  then have "rmatch (word ''vehicle'') (s, cap) = []"
    by (simp only: rmatch_vehicle if_False)
  then have "rmatch (Seq (word ''vehicle'') (Seq (Star (Chars isWhiteSpace)) (word ''id''))) (s, cap) = []"
    by (rule rmatch_Seq_none)
  with False show ?thesis
    by (simp only: simp_thms if_False)
next
  case True
  then have "rmatch (word ''vehicle'') (s, cap) = [(drop 7 s, cap)]"
    by (simp only: rmatch_vehicle if_True)
  then have "rmatch (Seq (word ''vehicle'') (Seq (Star (Chars isWhiteSpace)) (word ''id''))) (s, cap) =
      rmatch (Seq (Star (Chars isWhiteSpace)) (word ''id'')) (drop 7 s, cap)"
    by (rule rmatch_Seq_single)
  also have "\<dots> = rmatch (word ''id'') (dropWhile isWhiteSpace (drop 7 s), cap)"
    by (rule rmatch_spaces_id)
  also have "\<dots> = (if id_label (dropWhile isWhiteSpace (drop 7 s))
      then [(drop 2 (dropWhile isWhiteSpace (drop 7 s)), cap)] else [])"
    by (rule rmatch_id_label)
  finally show ?thesis
    using True by (simp only: simp_thms)
qed

lemma rmatch_vehicleIdPattern:
  "rmatch vehicleIdPattern (s, cap) =
     (if starts_ci ''vehicle'' s \<and> id_label (dropWhile isWhiteSpace (drop 7 s)) then
        rmatch (Group (Seq (Chars isTokenChar) (Star (Chars isTokenChar))))
          (dropWhile isSeparator (drop 2 (dropWhile isWhiteSpace (drop 7 s))), cap)
      else if id_label s then
        rmatch (Group (Seq (Chars isTokenChar) (Star (Chars isTokenChar))))
          (dropWhile isSeparator (drop 2 s), cap)
      else [])"
proof -
  let ?long = "Seq (word ''vehicle'') (Seq (Star (Chars isWhiteSpace)) (word ''id''))"
  let ?group = "Group (Seq (Chars isTokenChar) (Star (Chars isTokenChar)))"
  let ?tail = "Seq (Star (Chars isSeparator)) ?group"
  let ?u = "dropWhile isWhiteSpace (drop 7 s)"
  have tail: "rmatch ?tail (x, cap) = rmatch ?group (dropWhile isSeparator x, cap)" for x
    by (rule rmatch_separators_token)
  have label: "rmatch (Alt ?long (word ''id'')) (s, cap) =
      (if starts_ci ''vehicle'' s \<and> id_label ?u then [(drop 2 ?u, cap)]
       else if id_label s then [(drop 2 s, cap)] else [])"
  proof -
    have "rmatch (Alt ?long (word ''id'')) (s, cap) =
            rmatch ?long (s, cap) @ rmatch (word ''id'') (s, cap)"
      by (rule rmatch.simps(4))
    also have "\<dots> = (if starts_ci ''vehicle'' s \<and> id_label ?u then [(drop 2 ?u, cap)] else []) @
                     (if id_label s then [(drop 2 s, cap)] else [])"
      by (simp only: rmatch_vehicle_label rmatch_id_label)
    also have "\<dots> = (if starts_ci ''vehicle'' s \<and> id_label ?u then [(drop 2 ?u, cap)]
       else if id_label s then [(drop 2 s, cap)] else [])"
      using vehicle_not_id [of s] by auto
    finally show ?thesis .
  qed
  consider (long) "starts_ci ''vehicle'' s \<and> id_label ?u"
    | (short) "\<not> (starts_ci ''vehicle'' s \<and> id_label ?u)" "id_label s"
    | (none) "\<not> (starts_ci ''vehicle'' s \<and> id_label ?u)" "\<not> id_label s"
    by blast
  then show ?thesis
  proof cases
    case long
    with label have "rmatch (Alt ?long (word ''id'')) (s, cap) = [(drop 2 ?u, cap)]"
      by (simp only: simp_thms if_True)
    then have "rmatch vehicleIdPattern (s, cap) = rmatch ?tail (drop 2 ?u, cap)"
      unfolding vehicleIdPattern_def by (rule rmatch_Seq_single)
    with long show ?thesis
      by (simp only: tail simp_thms if_True)
  next
    case short
    with label have "rmatch (Alt ?long (word ''id'')) (s, cap) = [(drop 2 s, cap)]"
      by (simp only: simp_thms if_True if_False)
    then have "rmatch vehicleIdPattern (s, cap) = rmatch ?tail (drop 2 s, cap)"
      unfolding vehicleIdPattern_def by (rule rmatch_Seq_single)
    with short show ?thesis
      by (simp only: tail simp_thms if_True if_False)
  next
    case none
    with label have "rmatch (Alt ?long (word ''id'')) (s, cap) = []"
      by (simp only: simp_thms if_False)
    then have "rmatch vehicleIdPattern (s, cap) = []"
      unfolding vehicleIdPattern_def by (rule rmatch_Seq_none)
    with none show ?thesis
      by (simp only: simp_thms if_False)
  qed
qed

lemma first_id_token_skip: "\<not> id_label (c # cs) \<Longrightarrow> first_id_token (c # cs) = first_id_token cs"
  by (simp add: id_token_at_def)

lemma id_label_Cons2:
  "id_label (a # b # rest) \<longleftrightarrow> canonicalize a = 0x49 \<and> canonicalize b = 0x44"
  by (simp add: id_label_def canonicalize_i canonicalize_d)

lemma first_id_token_spaces:
  "first_id_token s = first_id_token (dropWhile isWhiteSpace s)"
proof (induction s)
  case Nil
  show ?case by simp
next
  case (Cons c cs)
  show ?case
  proof (cases "isWhiteSpace c")
    case False
    then show ?thesis by simp
  next
    case True
    then have "\<not> id_label (c # cs)"
      using id_label_hd [of "c # cs"] whitespace_not_i by auto
    with Cons True show ?thesis
      by (simp add: id_token_at_def)
  qed
qed

lemma first_id_token_vehicle:
  assumes "starts_ci ''vehicle'' s"
  shows "first_id_token s = first_id_token (dropWhile isWhiteSpace (drop 7 s))"
proof -
  from assms obtain c0 c1 c2 c3 c4 c5 c6 s6 where s: "s = c0 # c1 # c2 # c3 # c4 # c5 # c6 # s6"
    and "canonicalize c0 = canonicalize 0x76" and "canonicalize c1 = canonicalize 0x65"
    and "canonicalize c2 = canonicalize 0x68" and "canonicalize c3 = canonicalize 0x69"
    and "canonicalize c4 = canonicalize 0x63" and "canonicalize c5 = canonicalize 0x6C"
    and "canonicalize c6 = canonicalize 0x65"
    by (auto dest!: starts_ci_Cons)
  then have c0: "canonicalize c0 = 0x56" and c1: "canonicalize c1 = 0x45"
    and c2: "canonicalize c2 = 0x48" and c3: "canonicalize c3 = 0x49"
    and c4: "canonicalize c4 = 0x43" and c5: "canonicalize c5 = 0x4C"
    and c6: "canonicalize c6 = 0x45"
    by (simp_all add: canonicalize_def)
  have "first_id_token s = first_id_token (c1 # c2 # c3 # c4 # c5 # c6 # s6)"
    unfolding s by (rule first_id_token_skip) (simp add: id_label_Cons2 c0)
  also have "\<dots> = first_id_token (c2 # c3 # c4 # c5 # c6 # s6)"
    by (rule first_id_token_skip) (simp add: id_label_Cons2 c1)
  also have "\<dots> = first_id_token (c3 # c4 # c5 # c6 # s6)"
    by (rule first_id_token_skip) (simp add: id_label_Cons2 c2)
  also have "\<dots> = first_id_token (c4 # c5 # c6 # s6)"
    by (rule first_id_token_skip) (simp add: id_label_Cons2 c4)
  also have "\<dots> = first_id_token (c5 # c6 # s6)"
    by (rule first_id_token_skip) (simp add: id_label_Cons2 c4)
  also have "\<dots> = first_id_token (c6 # s6)"
    by (rule first_id_token_skip) (simp add: id_label_Cons2 c5)
  also have "\<dots> = first_id_token s6"
    by (rule first_id_token_skip) (use c6 id_label_hd [of "c6 # s6"] in auto)
  also have "\<dots> = first_id_token (dropWhile isWhiteSpace s6)"
    by (rule first_id_token_spaces)
  also have "s6 = drop 7 s"
    by (simp add: s)
  finally show ?thesis .
qed

lemma rmatch_vehicleIdPattern_id:
  assumes "\<not> (starts_ci ''vehicle'' s \<and> id_label (dropWhile isWhiteSpace (drop 7 s)))"
  shows "rmatch vehicleIdPattern (s, cap) = [] \<and> id_token_at s = None \<or>
         (\<exists>rest others tok. rmatch vehicleIdPattern (s, cap) = (rest, Some tok) # others \<and>
            id_token_at s = Some tok)"
proof (cases "id_label s")
  case False
  with assms have "rmatch vehicleIdPattern (s, cap) = []"
    by (simp only: rmatch_vehicleIdPattern simp_thms if_False)
  with False show ?thesis
    by (simp add: id_token_at_def)
next
  case True
  with assms have r: "rmatch vehicleIdPattern (s, cap) =
      rmatch (Group (Seq (Chars isTokenChar) (Star (Chars isTokenChar))))
        (dropWhile isSeparator (drop 2 s), cap)"
    by (simp only: rmatch_vehicleIdPattern simp_thms if_True if_False)
  from rmatch_token_group [of "dropWhile isSeparator (drop 2 s)" cap] True show ?thesis
    unfolding r by (auto simp: id_token_at_def token_after_def simp del: rmatch.simps)
qed

lemma rmatch_vehicleIdPattern_vehicle:
  assumes "starts_ci ''vehicle'' s" and "id_label (dropWhile isWhiteSpace (drop 7 s))"
  shows "rmatch vehicleIdPattern (s, cap) = [] \<and>
           id_token_at (dropWhile isWhiteSpace (drop 7 s)) = None \<or>
         (\<exists>rest others tok. rmatch vehicleIdPattern (s, cap) = (rest, Some tok) # others \<and>
            id_token_at (dropWhile isWhiteSpace (drop 7 s)) = Some tok)"
proof -
  let ?u = "dropWhile isWhiteSpace (drop 7 s)"
  from assms have r: "rmatch vehicleIdPattern (s, cap) =
      rmatch (Group (Seq (Chars isTokenChar) (Star (Chars isTokenChar))))
        (dropWhile isSeparator (drop 2 ?u), cap)"
    by (simp only: rmatch_vehicleIdPattern simp_thms if_True)
  from rmatch_token_group [of "dropWhile isSeparator (drop 2 ?u)" cap] assms(2) show ?thesis
    unfolding r by (auto simp: id_token_at_def token_after_def simp del: rmatch.simps)
qed

lemma first_id_token_here:
  "id_token_at s = Some tok \<Longrightarrow> first_id_token s = Some tok"
  by (cases s) (simp_all add: id_token_at_def id_label_def)

lemma regex_match_first_id_token:
  "regex_match vehicleIdPattern t = map_option Some (first_id_token t)"
proof (induction t)
  case Nil
  have "\<not> (starts_ci ''vehicle'' [] \<and> id_label (dropWhile isWhiteSpace (drop 7 [])))"
    by (simp add: id_label_def)
  from rmatch_vehicleIdPattern_id [OF this, of None] have "rmatch vehicleIdPattern ([], None) = []"
    by (simp add: id_token_at_def id_label_def del: rmatch.simps)
  then show ?case
    by simp
next
  case (Cons c cs)
  let ?u = "dropWhile isWhiteSpace (drop 7 (c # cs))"
  show ?case
  proof (cases "starts_ci ''vehicle'' (c # cs) \<and> id_label ?u")
    case False
    from rmatch_vehicleIdPattern_id [OF False, of None] show ?thesis
    proof (elim disjE conjE exE)
      assume "rmatch vehicleIdPattern (c # cs, None) = []" "id_token_at (c # cs) = None"
      with Cons.IH show ?thesis
        by simp
    next
      fix rest others tok
      assume "rmatch vehicleIdPattern (c # cs, None) = (rest, Some tok) # others"
        "id_token_at (c # cs) = Some tok"
      then show ?thesis
        by simp
    qed
  next
    case True
    then have v: "starts_ci ''vehicle'' (c # cs)" and i: "id_label ?u"
      by simp_all
    from v have here: "id_token_at (c # cs) = None"
      using vehicle_not_id by (simp add: id_token_at_def)
    from rmatch_vehicleIdPattern_vehicle [OF v i, of None] show ?thesis
    proof (elim disjE conjE exE)
      assume "rmatch vehicleIdPattern (c # cs, None) = []"
      with Cons.IH here show ?thesis
        by simp
    next
      fix rest others tok
      assume r: "rmatch vehicleIdPattern (c # cs, None) = (rest, Some tok) # others"
        and t: "id_token_at ?u = Some tok"
      have "first_id_token (c # cs) = first_id_token ?u"
        using v by (rule first_id_token_vehicle)
      also have "\<dots> = Some tok"
        using t by (rule first_id_token_here)
      finally show ?thesis
        using r by (simp del: first_id_token.simps)
    qed
  qed
qed

lemma match_slide:
  "regex_match vehicleIdPattern (js ''slide'') = Some (Some (js ''e''))"
  by (simp add: vehicleIdPattern_def js_def lit_def canonicalize_def isWhiteSpace_def
      isSeparator_def isTokenChar_def rmatch.simps(5))

lemma sendMessageStream_request:
  "sid \<noteq> [] \<Longrightarrow> t \<noteq> [] \<Longrightarrow>
   fst (sendMessageStream fetch (Some sid) (Some t) d) =
     [run_sse_request (make_payload sid (Some t) d)]"
  by (simp add: sendMessageStream_def truthy_string_def Let_def)

lemma validation_fails_before_request:
  "\<not> truthy_string sid \<Longrightarrow>
     sendMessageStream fetch sid text d = ([], Inl (Error (js ''No active session id'')))"
  "truthy_string sid \<Longrightarrow> \<not> truthy_string text \<Longrightarrow> \<not> truthy_value d \<Longrightarrow>
     sendMessageStream fetch sid text d = ([], Inl (Error (js ''Message empty'')))"
  by (simp_all add: sendMessageStream_def)

lemma id_like_token_found: "has_id_like_token t \<Longrightarrow> first_id_token t \<noteq> None"
proof (induction t)
  case Nil
  then show ?case by simp
next
  case (Cons c cs)
  show ?case
  proof (cases "id_like_token_at (c # cs)")
    case True
    then have "id_token_at (c # cs) \<noteq> None"
      by (simp add: id_like_token_at_def id_token_at_def)
    then show ?thesis
      by (auto split: option.splits)
  next
    case False
    with Cons show ?thesis
      by (auto split: option.splits)
  qed
qed

lemma stateDelta_first_id_token:
  "stateDelta (make_payload sid (Some t) d) =
     map_option (\<lambda>tok. \<lparr>vehicle_id = Some tok\<rparr>) (first_id_token t)"
proof (cases t)
  case Nil
  then show ?thesis
    by (simp add: make_payload_def vehicleIdMatch_def)
next
  case (Cons c cs)
  then have "t \<noteq> []"
    by simp
  then show ?thesis
    by (cases "first_id_token t")
      (simp_all add: make_payload_def vehicleIdMatch_def regex_match_first_id_token
        del: first_id_token.simps)
qed

lemma first_token_xy12:
  "first_id_token (js ''vehicle id: XY-12 please check'') = Some (js ''XY-12'')"
  by (simp add: js_def id_token_at_def id_label_def token_after_def isSeparator_def
      isWhiteSpace_def isTokenChar_def)

text \<open>
  C8, as stated, fails: \<^verbatim>\<open>the video is broken\<close> holds no id-like token, neither
  \<^verbatim>\<open>vehicle id: <token>\<close> nor \<^verbatim>\<open>id: <token>\<close>, and its state delta is
  \<^verbatim>\<open>{ vehicle_id: "eo" }\<close>: the pattern takes the \<open>id\<close> inside \<open>video\<close> for the label,
  since \<^verbatim>\<open>[:\s]*\<close> may be empty.
\<close>

theorem id_like_token_counterexample:
  "\<not> has_id_like_token (js ''the video is broken'') \<and>
   stateDelta (make_payload (js ''s1'') (Some (js ''the video is broken'')) None) =
     Some \<lparr>vehicle_id = Some (js ''eo'')\<rparr>"
proof -
  have "\<not> has_id_like_token (js ''the video is broken'')"
    by (simp add: js_def id_like_token_at_def id_label_def token_after_def isSeparator_def
        isWhiteSpace_def isTokenChar_def)
  moreover have "regex_match vehicleIdPattern (js ''the video is broken'') = Some (Some (js ''eo''))"
    by (simp add: vehicleIdPattern_def js_def lit_def canonicalize_def isWhiteSpace_def
        isSeparator_def isTokenChar_def rmatch.simps(5))
  moreover have "js ''the video is broken'' \<noteq> []"
    by (simp add: js_def)
  ultimately show ?thesis
    by (simp add: make_payload_def vehicleIdMatch_def)
qed

text \<open>
  C8, amended. The text \<^verbatim>\<open>vehicle id: XY-12 please check\<close> gives the state delta
  \<^verbatim>\<open>{ vehicle_id: "XY-12" }\<close>. For every text, the state delta holds the token after the
  leftmost place where the letters \<open>id\<close>, in either case, are followed by any number of
  colons and white space (none too) and then by a letter, digit or hyphen; it is absent
  exactly when the text has no such place, or is missing. One match is taken, the first
  one, case ignored. A text with an id-like token always has a state delta; the payload
  is the one the request carries.
\<close>

theorem state_delta_first_id_token:
  "stateDelta (make_payload sid (Some (js ''vehicle id: XY-12 please check'')) d) =
     Some \<lparr>vehicle_id = Some (js ''XY-12'')\<rparr> \<and>
   stateDelta (make_payload sid (Some t) d) =
     map_option (\<lambda>tok. \<lparr>vehicle_id = Some tok\<rparr>) (first_id_token t) \<and>
   stateDelta (make_payload sid None d) = None \<and>
   (has_id_like_token t \<longrightarrow> stateDelta (make_payload sid (Some t) d) \<noteq> None) \<and>
   (sid \<noteq> [] \<and> t \<noteq> [] \<longrightarrow>
      fst (sendMessageStream fetch (Some sid) (Some t) d) =
        [run_sse_request (make_payload sid (Some t) d)])"
proof -
  have "stateDelta (make_payload sid None d) = None"
    by (simp add: make_payload_def vehicleIdMatch_def)
  moreover have "stateDelta (make_payload sid (Some t) d) \<noteq> None" if "has_id_like_token t"
    using id_like_token_found [OF that] by (simp add: stateDelta_first_id_token)
  ultimately show ?thesis
    using sendMessageStream_request [of sid t fetch d]
    by (simp add: stateDelta_first_id_token first_token_xy12 del: first_id_token.simps)
qed

theorem state_delta_first_id_token_witness:
  "has_id_like_token (js ''my ID:a1, id: b2'') \<and>
   stateDelta (make_payload (js ''s1'') (Some (js ''my ID:a1, id: b2'')) None) =
     Some \<lparr>vehicle_id = Some (js ''a1'')\<rparr> \<and>
   fst (sendMessageStream network_down (Some (js ''s1'')) (Some (js ''my ID:a1, id: b2'')) None) =
     [run_sse_request (make_payload (js ''s1'') (Some (js ''my ID:a1, id: b2'')) None)]"
proof -
  have "has_id_like_token (js ''my ID:a1, id: b2'')"
    by (simp add: js_def id_like_token_at_def id_label_def token_after_def isSeparator_def
        isWhiteSpace_def isTokenChar_def)
  moreover have "first_id_token (js ''my ID:a1, id: b2'') = Some (js ''a1'')"
    by (simp add: js_def id_token_at_def id_label_def token_after_def isSeparator_def
        isWhiteSpace_def isTokenChar_def)
  moreover have "js ''s1'' \<noteq> []" "js ''my ID:a1, id: b2'' \<noteq> []"
    by (simp_all add: js_def)
  ultimately show ?thesis
    using state_delta_first_id_token [of "js ''s1''" None "js ''my ID:a1, id: b2''" network_down]
    by (simp del: first_id_token.simps has_id_like_token.simps)
qed

text \<open>
  C9. The separator between label and token may be empty, so a text without any colon,
  hence without an \<^verbatim>\<open>id:\<close> or \<^verbatim>\<open>vehicle id:\<close> label, can still set the state delta:
  for \<^verbatim>\<open>slide\<close> the request carries \<^verbatim>\<open>{ vehicle_id: "e" }\<close>.
\<close>

theorem label_free_text_sets_vehicle_id:
  "(s, cap) \<in> set (rmatch (Star (Chars isSeparator)) (s, cap)) \<and>
   0x3A \<notin> set (js ''slide'') \<and>
   fst (sendMessageStream fetch (Some (js ''s1'')) (Some (js ''slide'')) None) =
     [run_sse_request (make_payload (js ''s1'') (Some (js ''slide'')) None)] \<and>
   stateDelta (make_payload (js ''s1'') (Some (js ''slide'')) None) =
     Some \<lparr>vehicle_id = Some (js ''e'')\<rparr>"
proof -
  have "(s, cap) \<in> set (rmatch (Star (Chars isSeparator)) (s, cap))"
    by (subst rmatch.simps(5)) simp
  moreover have "js ''s1'' \<noteq> []" "js ''slide'' \<noteq> []" "0x3A \<notin> set (js ''slide'')"
    by (simp_all add: js_def)
  ultimately show ?thesis
    using match_slide
    by (simp add: sendMessageStream_request make_payload_def vehicleIdMatch_def)
qed

text \<open>
  C4 at the text of three spaces, without inline data: the text trims to the empty
  string, and yet the validation passes and the request is issued, with no parts.
\<close>

theorem whitespace_text_passes_validation:
  "trim (js ''   '') = [] \<and>
   fst (sendMessageStream fetch (Some (js ''s1'')) (Some (js ''   '')) None) =
     [run_sse_request (make_payload (js ''s1'') (Some (js ''   '')) None)] \<and>
   parts (newMessage (make_payload (js ''s1'') (Some (js ''   '')) None)) = []"
proof -
  have t: "trim (js ''   '') = []"
    by (simp add: trim_def js_def isWhiteSpace_def)
  moreover have "js ''s1'' \<noteq> []" "js ''   '' \<noteq> []"
    by (simp_all add: js_def)
  ultimately show ?thesis
    by (simp add: sendMessageStream_request make_payload_def message_parts_def)
qed

end
